theory Spec2Isabelle
  imports Main "HOL-Library.Word" "HOL-Library.Multiset" "HOL-Library.Product_Lexorder"
begin

unbundle bit_operations_syntax

section \<open>Errors, bytes and the big-endian wire format\<close>

text \<open>
  Every exception the converters of \<^verbatim>\<open>otConverters.py\<close> can raise is a value of
  \<open>error\<close>; a function that can raise returns \<open>error + 'a\<close>, with \<open>Inl\<close> the exception.
  \<open>AssertionError\<close> is a failed \<^verbatim>\<open>assert\<close>, \<open>StructError\<close> is the failure of a
  fixed-width scalar read or write (no bytes left, or a value outside the field).
\<close>

datatype error = AssertionError | IndexError | KeyError | NameError | AttributeError
  | ValueError | ZeroDivisionError | StructError

type_synonym byte = "8 word"

text \<open>Python integers are unbounded: they are \<open>int\<close> here, and \<^verbatim>\<open>&\<close>, \<^verbatim>\<open>|\<close>,
  \<^verbatim>\<open><<\<close>, \<^verbatim>\<open>>>\<close> are \<open>AND\<close>, \<open>OR\<close>, \<open>push_bit\<close>, \<open>drop_bit\<close> on two's-complement
  integers.\<close>

fun be_bytes :: "nat \<Rightarrow> int \<Rightarrow> byte list" where
  "be_bytes 0 v = []"
| "be_bytes (Suc n) v = word_of_int (drop_bit (8 * n) v) # be_bytes n v"

fun be_int :: "byte list \<Rightarrow> int" where
  "be_int [] = 0"
| "be_int (b # bs) = uint b * 2 ^ (8 * length bs) + be_int bs"

definition be_sint :: "byte list \<Rightarrow> int" where
  "be_sint bs = (let u = be_int bs in
     if bs \<noteq> [] \<and> 2 ^ (8 * length bs - 1) \<le> u then u - 2 ^ (8 * length bs) else u)"

section \<open>The byte sink (OTTableWriter) and the byte cursor (OTTableReader)\<close>

text \<open>
  Modelled from the spec: the writer and the reader live in \<^verbatim>\<open>otBase.py\<close>, which is
  not part of the sources at hand. The spec gives them as capabilities: scalar writes
  and reads of fixed width in big-endian order, \<^verbatim>\<open>writeData\<close> for a span of bytes,
  \<^verbatim>\<open>getSubWriter\<close> for a deferred sub-sink that the parent splices in through an offset,
  \<^verbatim>\<open>getSubReader\<close> for an independent cursor on the same buffer, and absolute seeks.
  A writer is the list of the items written so far; an item is a span of bytes or a
  sub-writer that will be reached through an offset of 2 or 4 bytes. A scalar that does
  not fit its field has no encoding and the write fails; a read past the end fails.
\<close>

datatype writer =
  OTTableWriter (items: "item list") (longOffset: bool) (name: string)
    (repeatIndex: "int option") (Extension: bool) (localState: "(string \<times> int) list")
and item = Data "byte list" | SubWriter writer

definition newWriter :: writer where
  "newWriter = OTTableWriter [] False [] None False []"

definition set_items :: "item list \<Rightarrow> writer \<Rightarrow> writer" where
  "set_items its w =
     OTTableWriter its (longOffset w) (name w) (repeatIndex w) (Extension w) (localState w)"

definition set_longOffset :: "bool \<Rightarrow> writer \<Rightarrow> writer" where
  "set_longOffset b w =
     OTTableWriter (items w) b (name w) (repeatIndex w) (Extension w) (localState w)"

definition set_name :: "string \<Rightarrow> writer \<Rightarrow> writer" where
  "set_name n w =
     OTTableWriter (items w) (longOffset w) n (repeatIndex w) (Extension w) (localState w)"

definition set_repeatIndex :: "int option \<Rightarrow> writer \<Rightarrow> writer" where
  "set_repeatIndex i w =
     OTTableWriter (items w) (longOffset w) (name w) i (Extension w) (localState w)"

definition set_Extension :: "bool \<Rightarrow> writer \<Rightarrow> writer" where
  "set_Extension b w =
     OTTableWriter (items w) (longOffset w) (name w) (repeatIndex w) b (localState w)"

definition set_localState :: "(string \<times> int) list \<Rightarrow> writer \<Rightarrow> writer" where
  "set_localState s w =
     OTTableWriter (items w) (longOffset w) (name w) (repeatIndex w) (Extension w) s"

definition append_item :: "writer \<Rightarrow> item \<Rightarrow> writer" where
  "append_item w it = set_items (items w @ [it]) w"

definition getSubWriter :: "writer \<Rightarrow> writer" where
  "getSubWriter w = set_localState (localState w) newWriter"

definition writeSubTable :: "writer \<Rightarrow> writer \<Rightarrow> writer" where
  "writeSubTable w sub = append_item w (SubWriter sub)"

definition writeData :: "writer \<Rightarrow> byte list \<Rightarrow> writer" where
  "writeData w bs = append_item w (Data bs)"

definition writeUnsigned :: "nat \<Rightarrow> writer \<Rightarrow> int \<Rightarrow> error + writer" where
  "writeUnsigned n w v =
     (if 0 \<le> v \<and> v < 2 ^ (8 * n) then Inr (writeData w (be_bytes n v)) else Inl StructError)"

definition writeSigned :: "nat \<Rightarrow> writer \<Rightarrow> int \<Rightarrow> error + writer" where
  "writeSigned n w v =
     (if - (2 ^ (8 * n - 1)) \<le> v \<and> v < 2 ^ (8 * n - 1)
      then Inr (writeData w (be_bytes n v)) else Inl StructError)"

definition writeUInt8 :: "writer \<Rightarrow> int \<Rightarrow> error + writer" where
  "writeUInt8 = writeUnsigned 1"

definition writeUShort :: "writer \<Rightarrow> int \<Rightarrow> error + writer" where
  "writeUShort = writeUnsigned 2"

definition writeUInt24 :: "writer \<Rightarrow> int \<Rightarrow> error + writer" where
  "writeUInt24 = writeUnsigned 3"

definition writeULong :: "writer \<Rightarrow> int \<Rightarrow> error + writer" where
  "writeULong = writeUnsigned 4"

definition writeInt8 :: "writer \<Rightarrow> int \<Rightarrow> error + writer" where
  "writeInt8 = writeSigned 1"

definition writeShort :: "writer \<Rightarrow> int \<Rightarrow> error + writer" where
  "writeShort = writeSigned 2"

definition writeLong :: "writer \<Rightarrow> int \<Rightarrow> error + writer" where
  "writeLong = writeSigned 4"

text \<open>\<^verbatim>\<open>getDataLength\<close>: the length of the writer's own data, a sub-writer counting as
  the offset that will point to it.\<close>

fun item_length :: "item \<Rightarrow> nat" where
  "item_length (Data bs) = length bs"
| "item_length (SubWriter s) = (if longOffset s then 4 else 2)"

definition getDataLength :: "writer \<Rightarrow> nat" where
  "getDataLength w = sum_list (map item_length (items w))"

text \<open>\<^verbatim>\<open>getAllData\<close> of a writer that holds no sub-writer is the concatenation of its
  items. Laying out sub-writers and patching their offsets is the sink's own business
  and is not modelled: a sub-writer contributes no bytes here, and the functions below
  that need the bytes of a writer with sub-writers take them as a parameter.\<close>

fun item_bytes :: "item \<Rightarrow> byte list" where
  "item_bytes (Data bs) = bs"
| "item_bytes (SubWriter s) = []"

definition getAllData :: "writer \<Rightarrow> byte list" where
  "getAllData w = concat (map item_bytes (items w))"

text \<open>A reader is a cursor \<open>pos\<close> into the buffer \<open>data\<close>; \<open>offset\<close> is where its
  own table starts, the anchor of the offsets read from it. Both are absolute
  positions in the buffer.\<close>

record reader =
  data :: "byte list"
  offset :: int
  pos :: int

definition seek :: "int \<Rightarrow> reader \<Rightarrow> reader" where
  "seek p r = r\<lparr>pos := p\<rparr>"

definition advance :: "int \<Rightarrow> reader \<Rightarrow> reader" where
  "advance n r = r\<lparr>pos := pos r + n\<rparr>"

definition getSubReader :: "int \<Rightarrow> reader \<Rightarrow> reader" where
  "getSubReader off r = r\<lparr>offset := offset r + off, pos := offset r + off\<rparr>"

definition readData :: "nat \<Rightarrow> reader \<Rightarrow> error + (byte list \<times> reader)" where
  "readData n r =
     (if 0 \<le> pos r \<and> pos r + int n \<le> int (length (data r))
      then Inr (take n (drop (nat (pos r)) (data r)), r\<lparr>pos := pos r + int n\<rparr>)
      else Inl StructError)"

definition readUnsigned :: "nat \<Rightarrow> reader \<Rightarrow> error + (int \<times> reader)" where
  "readUnsigned n r =
     (case readData n r of Inl e \<Rightarrow> Inl e | Inr (bs, r') \<Rightarrow> Inr (be_int bs, r'))"

definition readSigned :: "nat \<Rightarrow> reader \<Rightarrow> error + (int \<times> reader)" where
  "readSigned n r =
     (case readData n r of Inl e \<Rightarrow> Inl e | Inr (bs, r') \<Rightarrow> Inr (be_sint bs, r'))"

definition readUInt8 :: "reader \<Rightarrow> error + (int \<times> reader)" where
  "readUInt8 = readUnsigned 1"

definition readUShort :: "reader \<Rightarrow> error + (int \<times> reader)" where
  "readUShort = readUnsigned 2"

definition readUInt24 :: "reader \<Rightarrow> error + (int \<times> reader)" where
  "readUInt24 = readUnsigned 3"

definition readULong :: "reader \<Rightarrow> error + (int \<times> reader)" where
  "readULong = readUnsigned 4"

definition readInt8 :: "reader \<Rightarrow> error + (int \<times> reader)" where
  "readInt8 = readSigned 1"

definition readShort :: "reader \<Rightarrow> error + (int \<times> reader)" where
  "readShort = readSigned 2"

definition readLong :: "reader \<Rightarrow> error + (int \<times> reader)" where
  "readLong = readSigned 4"

text \<open>The fields of the enclosing table come to a converter in \<^verbatim>\<open>tableDict\<close>, a
  dictionary from field names to integers; a missing key raises \<^verbatim>\<open>KeyError\<close>.\<close>

type_synonym tableDict = "string \<Rightarrow> int option"

definition tableDict_get :: "tableDict \<Rightarrow> string \<Rightarrow> error + int" where
  "tableDict_get tableDict key = (case tableDict key of None \<Rightarrow> Inl KeyError | Some v \<Rightarrow> Inr v)"

section \<open>Version\<close>

text \<open>
  \<^verbatim>\<open>Version.read\<close> and \<^verbatim>\<open>Version.write\<close> (lines 326-335). \<^verbatim>\<open>fi2ve\<close>
  (\<^verbatim>\<open>ensureVersionIsLong\<close> of \<^verbatim>\<open>fixedTools\<close>) is not part of the sources at hand and is
  a parameter: it normalises the in-memory value, of any type \<open>'v\<close>, to a 16.16 integer.
\<close>

definition Version_read :: "reader \<Rightarrow> error + (int \<times> reader)" where
  "Version_read reader =
     (case readLong reader of
        Inl e \<Rightarrow> Inl e
      | Inr (value, reader') \<Rightarrow>
          if drop_bit 16 value = 1 then Inr (value, reader') else Inl AssertionError)"

definition Version_write :: "('v \<Rightarrow> int) \<Rightarrow> writer \<Rightarrow> 'v \<Rightarrow> error + writer" where
  "Version_write fi2ve writer value0 =
     (let value = fi2ve value0 in
      if drop_bit 16 value = 1 then writeLong writer value else Inl AssertionError)"

section \<open>Offset-addressed tables: Table, LTable and ExtSubTable\<close>

text \<open>
  \<^verbatim>\<open>Table\<close> (lines 482-519), \<^verbatim>\<open>LTable\<close> (521-527) and \<^verbatim>\<open>ExtSubTable\<close> (548-552);
  \<^verbatim>\<open>SubTable\<close> and \<^verbatim>\<open>FeatureParams\<close> read and write as \<^verbatim>\<open>Table\<close> does. The
  table class's \<^verbatim>\<open>decompile\<close> and \<^verbatim>\<open>compile\<close> are parameters. What \<^verbatim>\<open>read\<close> returns
  is Python's \<^verbatim>\<open>None\<close>, a table that keeps its reader for later (a lazy font) or a
  decompiled table.
\<close>

datatype offsetConverter = Table | LTable | ExtSubTable

fun conv_longOffset :: "offsetConverter \<Rightarrow> bool" where
  "conv_longOffset Table = False"
| "conv_longOffset LTable = True"
| "conv_longOffset ExtSubTable = True"

fun Table_staticSize :: "offsetConverter \<Rightarrow> nat" where
  "Table_staticSize Table = 2"
| "Table_staticSize LTable = 4"
| "Table_staticSize ExtSubTable = 4"

fun readOffset :: "offsetConverter \<Rightarrow> reader \<Rightarrow> error + (int \<times> reader)" where
  "readOffset Table reader = readUShort reader"
| "readOffset LTable reader = readULong reader"
| "readOffset ExtSubTable reader = readULong reader"

definition writeNullOffset :: "offsetConverter \<Rightarrow> writer \<Rightarrow> error + writer" where
  "writeNullOffset c writer =
     (if conv_longOffset c then writeULong writer 0 else writeUShort writer 0)"

datatype 't tableValue = Deferred reader | Decompiled 't

definition Table_read ::
  "offsetConverter \<Rightarrow> bool \<Rightarrow> (reader \<Rightarrow> error + 't) \<Rightarrow> reader
     \<Rightarrow> error + ('t tableValue option \<times> reader)" where
  "Table_read c font_lazy decompile reader =
     (case readOffset c reader of
        Inl e \<Rightarrow> Inl e
      | Inr (off, reader') \<Rightarrow>
          if off = 0 then Inr (None, reader')
          else
            let sub = getSubReader off reader' in
            if font_lazy then Inr (Some (Deferred sub), reader')
            else (case decompile sub of
                    Inl e \<Rightarrow> Inl e
                  | Inr table \<Rightarrow> Inr (Some (Decompiled table), reader')))"

definition Table_write ::
  "offsetConverter \<Rightarrow> string \<Rightarrow> ('t \<Rightarrow> writer \<Rightarrow> error + writer) \<Rightarrow> writer
     \<Rightarrow> 't option \<Rightarrow> int option \<Rightarrow> error + writer" where
  "Table_write c self_name compile writer0 value repeatIdx =
     (let writer = (if c = ExtSubTable then set_Extension True writer0 else writer0) in
      case value of
        None \<Rightarrow> writeNullOffset c writer
      | Some table \<Rightarrow>
          let subWriter = getSubWriter writer;
              subWriter = set_longOffset (conv_longOffset c) subWriter;
              subWriter = set_name self_name subWriter;
              subWriter = (case repeatIdx of
                             None \<Rightarrow> subWriter
                           | Some i \<Rightarrow> set_repeatIndex (Some i) subWriter)
          in (case compile table subWriter of
                Inl e \<Rightarrow> Inl e
              | Inr subWriter' \<Rightarrow> Inr (writeSubTable writer subWriter')))"

section \<open>StructWithLength\<close>

text \<open>
  \<^verbatim>\<open>StructWithLength.write\<close> (lines 462-479). The table object comes from
  \<^verbatim>\<open>otBase.py\<close> and \<^verbatim>\<open>otTables.py\<close>: its converters, whether it is a
  \<^verbatim>\<open>FormatSwitchingBaseTable\<close>, the assignment to its \<^verbatim>\<open>StructLength\<close> field and its
  \<^verbatim>\<open>compile\<close> are parameters, gathered in a record. Of a converter the function uses
  the name, the \<^verbatim>\<open>staticSize\<close> attribute (\<open>None\<close> when the class has none) and
  \<^verbatim>\<open>write\<close>.
\<close>

record convInfo =
  conv_name :: string
  conv_staticSize :: "nat option"
  conv_write :: "writer \<Rightarrow> int \<Rightarrow> error + writer"

record 't tableOps =
  getConverters :: "'t \<Rightarrow> convInfo list"
  isFormatSwitching :: "'t \<Rightarrow> bool"
  setStructLength :: "int \<Rightarrow> 't \<Rightarrow> 't"
  table_compile :: "'t \<Rightarrow> writer \<Rightarrow> error + writer"

text \<open>The \<^verbatim>\<open>for ... break\<close> loop: the index and the converter it stops at, which are
  those of the last converter when none is named \<^verbatim>\<open>StructLength\<close>, and are unbound
  when there is no converter at all.\<close>

fun find_StructLength ::
  "convInfo list \<Rightarrow> nat \<Rightarrow> (nat \<times> convInfo) option \<Rightarrow> (nat \<times> convInfo) option" where
  "find_StructLength [] convIndex cur = cur"
| "find_StructLength (conv # rest) convIndex cur =
     (if conv_name conv = ''StructLength'' then Some (convIndex, conv)
      else find_StructLength rest (Suc convIndex) (Some (convIndex, conv)))"

definition deadbeef_of :: "nat option \<Rightarrow> error + int" where
  "deadbeef_of sz =
     (case sz of
        None \<Rightarrow> Inl AttributeError
      | Some n \<Rightarrow>
          if n = 1 then Inr 0xDE
          else if n = 2 then Inr 0xDEAD
          else if n = 4 then Inr 0xDEADBEEF
          else Inl KeyError)"

definition deadbeef_bytes :: "byte list" where
  "deadbeef_bytes = [0xDE, 0xAD, 0xBE, 0xEF]"

definition StructWithLength_write :: "'t tableOps \<Rightarrow> writer \<Rightarrow> 't \<Rightarrow> error + writer" where
  "StructWithLength_write ops writer value =
     (case find_StructLength (getConverters ops value) 0 None of
        None \<Rightarrow> Inl NameError
      | Some (convIndex, conv) \<Rightarrow>
          let lengthIndex = length (items writer) + convIndex;
              lengthIndex = (if isFormatSwitching ops value then lengthIndex + 1
                             else lengthIndex)
          in
          (case deadbeef_of (conv_staticSize conv) of
             Inl e \<Rightarrow> Inl e
           | Inr deadbeef \<Rightarrow>
               let before = getDataLength writer;
                   value = setStructLength ops deadbeef value
               in
               (case table_compile ops value writer of
                  Inl e \<Rightarrow> Inl e
                | Inr writer' \<Rightarrow>
                    let len = int (getDataLength writer') - int before;
                        lengthWriter = getSubWriter writer'
                    in
                    (case conv_write conv lengthWriter len of
                       Inl e \<Rightarrow> Inl e
                     | Inr lengthWriter' \<Rightarrow>
                         if \<not> lengthIndex < length (items writer') then Inl IndexError
                         else if items writer' ! lengthIndex
                                 \<noteq> Data (take (the (conv_staticSize conv)) deadbeef_bytes)
                         then Inl AssertionError
                         else Inr (set_items
                                ((items writer')[lengthIndex := Data (getAllData lengthWriter')])
                                writer')))))"

text \<open>
  Modelled from the spec: \<^verbatim>\<open>BaseTable.compile\<close> is in \<^verbatim>\<open>otBase.py\<close>, outside the
  sources at hand. The spec: a table object's encode routine iterates its bound
  converters in schema order, calling \<^verbatim>\<open>write\<close> against the shared sink. This is
  that routine for a table whose fields are all scalars (one item of the writer each),
  after the implicit \<^verbatim>\<open>Format\<close> field of a format-switching table. It gives the
  parameters of \<open>StructWithLength_write\<close> a concrete instance.
\<close>

record scalarTable =
  st_Format :: "int option"
  st_fields :: "(convInfo \<times> int) list"

fun compile_fields :: "(convInfo \<times> int) list \<Rightarrow> writer \<Rightarrow> error + writer" where
  "compile_fields [] writer = Inr writer"
| "compile_fields ((conv, v) # rest) writer =
     (case conv_write conv writer v of
        Inl e \<Rightarrow> Inl e
      | Inr writer' \<Rightarrow> compile_fields rest writer')"

definition scalarTable_compile :: "scalarTable \<Rightarrow> writer \<Rightarrow> error + writer" where
  "scalarTable_compile t writer =
     (case st_Format t of
        None \<Rightarrow> compile_fields (st_fields t) writer
      | Some f \<Rightarrow>
          (case writeUShort writer f of
             Inl e \<Rightarrow> Inl e
           | Inr writer' \<Rightarrow> compile_fields (st_fields t) writer'))"

definition scalarTable_ops :: "scalarTable tableOps" where
  "scalarTable_ops =
     \<lparr>getConverters = (\<lambda>t. map fst (st_fields t)),
      isFormatSwitching = (\<lambda>t. st_Format t \<noteq> None),
      setStructLength = (\<lambda>v t. t\<lparr>st_fields :=
         map (\<lambda>(c, x). if conv_name c = ''StructLength'' then (c, v) else (c, x))
           (st_fields t)\<rparr>),
      table_compile = scalarTable_compile\<rparr>"

text \<open>The computed integer converters of \<^verbatim>\<open>buildConverters\<close> (lines 32-37):
  \<^verbatim>\<open>ComputedUInt8\<close>, \<^verbatim>\<open>ComputedUShort\<close> and \<^verbatim>\<open>ComputedULong\<close> write as \<^verbatim>\<open>UInt8\<close>,
  \<^verbatim>\<open>UShort\<close> and \<^verbatim>\<open>ULong\<close> do (lines 201-239).\<close>

definition ComputedUInt8 :: "string \<Rightarrow> convInfo" where
  "ComputedUInt8 nm = \<lparr>conv_name = nm, conv_staticSize = Some 1, conv_write = writeUInt8\<rparr>"

definition ComputedUShort :: "string \<Rightarrow> convInfo" where
  "ComputedUShort nm = \<lparr>conv_name = nm, conv_staticSize = Some 2, conv_write = writeUShort\<rparr>"

definition ComputedULong :: "string \<Rightarrow> convInfo" where
  "ComputedULong nm = \<lparr>conv_name = nm, conv_staticSize = Some 4, conv_write = writeULong\<rparr>"

section \<open>Arrays: eager and lazy decoding\<close>

text \<open>
  \<^verbatim>\<open>BaseConverter.readArray\<close> (lines 135-156), \<^verbatim>\<open>BaseConverter.getRecordSize\<close>
  (158-160) and \<^verbatim>\<open>_LazyList.__getitem__\<close> (95-104). The element converter's
  \<^verbatim>\<open>read\<close> and \<^verbatim>\<open>getRecordSize\<close> are parameters; \<^verbatim>\<open>NotImplemented\<close> is \<open>None\<close>. A
  slot of a lazy list is the placeholder \<^verbatim>\<open>_MissingItem([i])\<close> or a decoded element.
  The lazy list keeps its own copy of the reader, the position of the array, the record
  size and the converter.
\<close>

datatype 'a slot = MissingItem nat | Item 'a

record 'a LazyList =
  ldata :: "'a slot list"
  lreader :: reader
  lpos :: int
  recordSize :: nat
  lconv :: "tableDict \<Rightarrow> reader \<Rightarrow> error + ('a \<times> reader)"

datatype 'a array = PyList "'a list" | Lazy "'a LazyList"

definition BaseConverter_getRecordSize :: "nat option \<Rightarrow> reader \<Rightarrow> nat option" where
  "BaseConverter_getRecordSize staticSize reader = staticSize"

fun read_eager ::
  "(reader \<Rightarrow> error + ('a \<times> reader)) \<Rightarrow> nat \<Rightarrow> reader \<Rightarrow> error + ('a list \<times> reader)" where
  "read_eager rd 0 reader = Inr ([], reader)"
| "read_eager rd (Suc n) reader =
     (case rd reader of
        Inl e \<Rightarrow> Inl e
      | Inr (v, reader') \<Rightarrow>
          (case read_eager rd n reader' of
             Inl e \<Rightarrow> Inl e
           | Inr (l, reader'') \<Rightarrow> Inr (v # l, reader'')))"

definition readArray ::
  "(tableDict \<Rightarrow> reader \<Rightarrow> error + ('a \<times> reader)) \<Rightarrow> (reader \<Rightarrow> nat option) \<Rightarrow> bool
     \<Rightarrow> tableDict \<Rightarrow> reader \<Rightarrow> int \<Rightarrow> error + ('a array \<times> reader)" where
  "readArray conv_read getRecordSize font_lazy tableDict reader count' =
     (case (if font_lazy \<and> count' > 8 then getRecordSize reader else None) of
        None \<Rightarrow>
          (case read_eager (conv_read tableDict) (nat count') reader of
             Inl e \<Rightarrow> Inl e
           | Inr (l, reader') \<Rightarrow> Inr (PyList l, reader'))
      | Some rs \<Rightarrow>
          Inr (Lazy \<lparr>ldata = map MissingItem [0..<nat count'], lreader = reader,
                     lpos = pos reader, recordSize = rs, lconv = conv_read\<rparr>,
               advance (count' * int rs) reader))"

definition LazyList_getitem :: "'a LazyList \<Rightarrow> int \<Rightarrow> error + ('a \<times> 'a LazyList)" where
  "LazyList_getitem l k =
     (let n = int (length (ldata l));
          j = (if k < 0 then k + n else k)
      in if j < 0 \<or> n \<le> j then Inl IndexError
         else (case ldata l ! nat j of
                 Item v \<Rightarrow> Inr (v, l)
               | MissingItem i \<Rightarrow>
                   let reader = seek (lpos l + int i * int (recordSize l)) (lreader l) in
                   (case lconv l Map.empty reader of
                      Inl e \<Rightarrow> Inl e
                    | Inr (item, reader') \<Rightarrow>
                        Inr (item, l\<lparr>ldata := (ldata l)[nat j := Item item],
                                      lreader := reader'\<rparr>))))"

text \<open>A slice \<^verbatim>\<open>l[i:j]\<close>, either bound possibly left out: the indices
  \<^verbatim>\<open>range(*slice(i, j).indices(len(l)))\<close>, each fetched by \<^verbatim>\<open>__getitem__\<close>.\<close>

definition slice_bound :: "nat \<Rightarrow> int \<Rightarrow> nat" where
  "slice_bound n x = (if x < 0 then nat (max 0 (x + int n)) else min (nat x) n)"

definition slice_indices :: "nat \<Rightarrow> int option \<Rightarrow> int option \<Rightarrow> int list" where
  "slice_indices n i j =
     map int [(case i of None \<Rightarrow> 0 | Some x \<Rightarrow> slice_bound n x)
              ..< (case j of None \<Rightarrow> n | Some x \<Rightarrow> slice_bound n x)]"

fun LazyList_getitems :: "'a LazyList \<Rightarrow> int list \<Rightarrow> error + ('a list \<times> 'a LazyList)" where
  "LazyList_getitems l [] = Inr ([], l)"
| "LazyList_getitems l (k # ks) =
     (case LazyList_getitem l k of
        Inl e \<Rightarrow> Inl e
      | Inr (v, l') \<Rightarrow>
          (case LazyList_getitems l' ks of
             Inl e \<Rightarrow> Inl e
           | Inr (vs, l'') \<Rightarrow> Inr (v # vs, l'')))"

definition LazyList_getslice ::
  "'a LazyList \<Rightarrow> int option \<Rightarrow> int option \<Rightarrow> error + ('a list \<times> 'a LazyList)" where
  "LazyList_getslice l i j = LazyList_getitems l (slice_indices (length (ldata l)) i j)"

text \<open>What a lazy list is to the eager decode \<open>xs\<close> of the same array: every slot is
  still its own placeholder or already holds the element \<open>xs\<close> has there.\<close>

definition lazy_repr ::
  "'a list \<Rightarrow> reader \<Rightarrow> nat \<Rightarrow> (tableDict \<Rightarrow> reader \<Rightarrow> error + ('a \<times> reader))
     \<Rightarrow> 'a LazyList \<Rightarrow> bool" where
  "lazy_repr xs reader0 rs cr l \<longleftrightarrow>
     length (ldata l) = length xs \<and> lpos l = pos reader0 \<and> recordSize l = rs \<and> lconv l = cr
     \<and> data (lreader l) = data reader0 \<and> offset (lreader l) = offset reader0
     \<and> (\<forall>i<length xs. ldata l ! i = MissingItem i \<or> ldata l ! i = Item (xs ! i))"

section \<open>DeltaValue\<close>

text \<open>
  \<^verbatim>\<open>DeltaValue.read\<close> (lines 1170-1191) and \<^verbatim>\<open>DeltaValue.write\<close> (1193-1212). After the assertion on
  \<^verbatim>\<open>DeltaFormat\<close>, \<^verbatim>\<open>nBits\<close> is 2, 4 or 8 and \<^verbatim>\<open>shift\<close> runs through the
  multiples of \<^verbatim>\<open>nBits\<close> from 16 down to 0, so both are natural numbers and
  \<^verbatim>\<open>shift - nBits\<close> never goes below zero.
\<close>

fun DeltaValue_read_loop ::
  "nat \<Rightarrow> nat \<Rightarrow> int \<Rightarrow> int \<Rightarrow> int \<Rightarrow> int \<Rightarrow> nat \<Rightarrow> reader \<Rightarrow> error + (int list \<times> reader)" where
  "DeltaValue_read_loop 0 nBits mask' signMask minusOffset tmp shift reader = Inr ([], reader)"
| "DeltaValue_read_loop (Suc n) nBits mask' signMask minusOffset tmp shift reader =
     (case (if shift = 0
            then (case readUShort reader of
                    Inl e \<Rightarrow> Inl e
                  | Inr (t, reader') \<Rightarrow> Inr (t, 16, reader'))
            else Inr (tmp, shift, reader)) of
        Inl e \<Rightarrow> Inl e
      | Inr (tmp, shift, reader) \<Rightarrow>
          let shift = shift - nBits;
              value = drop_bit shift tmp AND mask';
              value = (if value AND signMask \<noteq> 0 then value - minusOffset else value)
          in (case DeltaValue_read_loop n nBits mask' signMask minusOffset tmp shift reader of
                Inl e \<Rightarrow> Inl e
              | Inr (DeltaValue, reader') \<Rightarrow> Inr (value # DeltaValue, reader')))"

definition DeltaValue_read :: "tableDict \<Rightarrow> reader \<Rightarrow> error + (int list \<times> reader)" where
  "DeltaValue_read tableDict reader =
     (case tableDict_get tableDict ''StartSize'' of Inl e \<Rightarrow> Inl e | Inr StartSize \<Rightarrow>
      case tableDict_get tableDict ''EndSize'' of Inl e \<Rightarrow> Inl e | Inr EndSize \<Rightarrow>
      case tableDict_get tableDict ''DeltaFormat'' of Inl e \<Rightarrow> Inl e | Inr DeltaFormat \<Rightarrow>
      if DeltaFormat \<notin> {1, 2, 3} then Inl AssertionError
      else
        let nItems = EndSize - StartSize + 1;
            nBits = (push_bit (nat DeltaFormat) 1 :: nat);
            minusOffset = (push_bit nBits 1 :: int);
            mask' = (push_bit nBits 1 :: int) - 1;
            signMask = (push_bit (nBits - 1) 1 :: int)
        in DeltaValue_read_loop (nat nItems) nBits mask' signMask minusOffset 0 0 reader)"

fun DeltaValue_write_loop ::
  "nat \<Rightarrow> int \<Rightarrow> int list \<Rightarrow> int \<Rightarrow> nat \<Rightarrow> writer \<Rightarrow> error + (int \<times> nat \<times> writer)" where
  "DeltaValue_write_loop nBits mask' [] tmp shift writer = Inr (tmp, shift, writer)"
| "DeltaValue_write_loop nBits mask' (value # rest) tmp shift writer =
     (let shift = shift - nBits;
          tmp = tmp OR push_bit shift (value AND mask')
      in if shift = 0
         then (case writeUShort writer tmp of
                 Inl e \<Rightarrow> Inl e
               | Inr writer' \<Rightarrow> DeltaValue_write_loop nBits mask' rest 0 16 writer')
         else DeltaValue_write_loop nBits mask' rest tmp shift writer)"

definition DeltaValue_write :: "tableDict \<Rightarrow> writer \<Rightarrow> int list \<Rightarrow> error + writer" where
  "DeltaValue_write tableDict writer DeltaValue =
     (case tableDict_get tableDict ''StartSize'' of Inl e \<Rightarrow> Inl e | Inr StartSize \<Rightarrow>
      case tableDict_get tableDict ''EndSize'' of Inl e \<Rightarrow> Inl e | Inr EndSize \<Rightarrow>
      case tableDict_get tableDict ''DeltaFormat'' of Inl e \<Rightarrow> Inl e | Inr DeltaFormat \<Rightarrow>
      if DeltaFormat \<notin> {1, 2, 3} then Inl AssertionError
      else
        let nItems = EndSize - StartSize + 1;
            nBits = (push_bit (nat DeltaFormat) 1 :: nat)
        in if int (length DeltaValue) \<noteq> nItems then Inl AssertionError
           else
             let mask' = (push_bit nBits 1 :: int) - 1 in
             (case DeltaValue_write_loop nBits mask' DeltaValue 0 16 writer of
                Inl e \<Rightarrow> Inl e
              | Inr (tmp, shift, writer') \<Rightarrow>
                  if shift \<noteq> 16 then writeUShort writer' tmp else Inr writer'))"

text \<open>The 16-bit words \<^verbatim>\<open>DeltaValue.write\<close> emits from the loop state \<open>(tmp, shift)\<close>
  on, as a list: the specification of the packing the proofs below relate both loops
  to.\<close>

fun delta_words :: "nat \<Rightarrow> int list \<Rightarrow> int \<Rightarrow> nat \<Rightarrow> int list" where
  "delta_words nBits [] tmp shift = (if shift \<noteq> 16 then [tmp] else [])"
| "delta_words nBits (v # vs) tmp shift =
     (let shift' = shift - nBits;
          tmp' = tmp OR push_bit shift' (take_bit nBits v)
      in if shift' = 0 then tmp' # delta_words nBits vs 0 16
         else delta_words nBits vs tmp' shift')"

definition write_words :: "writer \<Rightarrow> int list \<Rightarrow> writer" where
  "write_words w ws = set_items (items w @ map (\<lambda>x. Data (be_bytes 2 x)) ws) w"

text \<open>What holds of the loop state of \<^verbatim>\<open>write\<close> between two values: the bits of
  \<open>tmp\<close> lie in the part of the word already filled.\<close>

definition delta_inv :: "nat \<Rightarrow> int \<Rightarrow> nat \<Rightarrow> bool" where
  "delta_inv nBits tmp shift \<longleftrightarrow>
     0 < nBits \<and> nBits dvd 16 \<and> nBits dvd shift \<and> 0 < shift \<and> shift \<le> 16
     \<and> (\<forall>i. bit tmp i \<longrightarrow> shift \<le> i \<and> i < 16)"

definition bytes_of_words :: "int list \<Rightarrow> byte list" where
  "bytes_of_words ws = concat (map (be_bytes 2) ws)"

section \<open>VarIdxMapValue\<close>

text \<open>
  \<^verbatim>\<open>VarIdxMapValue.read\<close> (lines 1224-1247) and \<^verbatim>\<open>VarIdxMapValue.write\<close>
  (1249-1268). \<^verbatim>\<open>innerBits\<close> is between 1 and 16 and \<^verbatim>\<open>entrySize\<close> between 1 and 4
  whatever \<^verbatim>\<open>EntryFormat\<close> is, so \<^verbatim>\<open>outerShift\<close> is never negative and the
  dictionary of the four read or write methods always has the key. The expressions of
  the two loop bodies are functions of their own.
\<close>

definition VarIdx_innerBits :: "int \<Rightarrow> int" where
  "VarIdx_innerBits fmt = 1 + (fmt AND 0x000F)"

definition VarIdx_innerMask :: "int \<Rightarrow> int" where
  "VarIdx_innerMask fmt = push_bit (nat (VarIdx_innerBits fmt)) 1 - 1"

definition VarIdx_outerMask :: "int \<Rightarrow> int" where
  "VarIdx_outerMask fmt = 0xFFFFFFFF - VarIdx_innerMask fmt"

definition VarIdx_outerShift :: "int \<Rightarrow> int" where
  "VarIdx_outerShift fmt = 16 - VarIdx_innerBits fmt"

definition VarIdx_entrySize :: "int \<Rightarrow> int" where
  "VarIdx_entrySize fmt = 1 + drop_bit 4 (fmt AND 0x0030)"

definition VarIdx_read_method :: "int \<Rightarrow> error + (reader \<Rightarrow> error + (int \<times> reader))" where
  "VarIdx_read_method entrySize =
     (if entrySize = 1 then Inr readUInt8
      else if entrySize = 2 then Inr readUShort
      else if entrySize = 3 then Inr readUInt24
      else if entrySize = 4 then Inr readULong
      else Inl KeyError)"

definition VarIdx_write_method :: "int \<Rightarrow> error + (writer \<Rightarrow> int \<Rightarrow> error + writer)" where
  "VarIdx_write_method entrySize =
     (if entrySize = 1 then Inr writeUInt8
      else if entrySize = 2 then Inr writeUShort
      else if entrySize = 3 then Inr writeUInt24
      else if entrySize = 4 then Inr writeULong
      else Inl KeyError)"

definition VarIdx_idx :: "int \<Rightarrow> int \<Rightarrow> int" where
  "VarIdx_idx fmt raw =
     push_bit (nat (VarIdx_outerShift fmt)) (raw AND VarIdx_outerMask fmt)
       OR (raw AND VarIdx_innerMask fmt)"

definition VarIdx_raw :: "int \<Rightarrow> int \<Rightarrow> int" where
  "VarIdx_raw fmt idx =
     drop_bit (nat (VarIdx_outerShift fmt)) (idx AND 0xFFFF0000)
       OR (idx AND VarIdx_innerMask fmt)"

fun VarIdxMapValue_read_loop ::
  "nat \<Rightarrow> int \<Rightarrow> (reader \<Rightarrow> error + (int \<times> reader)) \<Rightarrow> reader
     \<Rightarrow> error + (int list \<times> reader)" where
  "VarIdxMapValue_read_loop 0 fmt read reader = Inr ([], reader)"
| "VarIdxMapValue_read_loop (Suc n) fmt read reader =
     (case read reader of
        Inl e \<Rightarrow> Inl e
      | Inr (raw, reader') \<Rightarrow>
          (case VarIdxMapValue_read_loop n fmt read reader' of
             Inl e \<Rightarrow> Inl e
           | Inr (mapping, reader'') \<Rightarrow> Inr (VarIdx_idx fmt raw # mapping, reader'')))"

definition VarIdxMapValue_read :: "tableDict \<Rightarrow> reader \<Rightarrow> error + (int list \<times> reader)" where
  "VarIdxMapValue_read tableDict reader =
     (case tableDict_get tableDict ''EntryFormat'' of Inl e \<Rightarrow> Inl e | Inr fmt \<Rightarrow>
      case tableDict_get tableDict ''MappingCount'' of Inl e \<Rightarrow> Inl e | Inr nItems \<Rightarrow>
      case VarIdx_read_method (VarIdx_entrySize fmt) of Inl e \<Rightarrow> Inl e | Inr read \<Rightarrow>
        VarIdxMapValue_read_loop (nat nItems) fmt read reader)"

text \<open>Modelled from the spec: \<^verbatim>\<open>writer['MappingCount'].setValue(n)\<close> goes through a
  count reference of \<^verbatim>\<open>otBase.py\<close>, outside the sources at hand. The spec: the
  converter writes back the observed item count into the sibling \<^verbatim>\<open>MappingCount\<close>
  field. The writer's local state records the count under that name.\<close>

definition setCountValue :: "string \<Rightarrow> int \<Rightarrow> writer \<Rightarrow> writer" where
  "setCountValue key n w =
     set_localState ((key, n) # filter (\<lambda>kv. fst kv \<noteq> key) (localState w)) w"

fun VarIdxMapValue_write_loop ::
  "int \<Rightarrow> (writer \<Rightarrow> int \<Rightarrow> error + writer) \<Rightarrow> int list \<Rightarrow> writer \<Rightarrow> error + writer" where
  "VarIdxMapValue_write_loop fmt write [] writer = Inr writer"
| "VarIdxMapValue_write_loop fmt write (idx # rest) writer =
     (case write writer (VarIdx_raw fmt idx) of
        Inl e \<Rightarrow> Inl e
      | Inr writer' \<Rightarrow> VarIdxMapValue_write_loop fmt write rest writer')"

definition VarIdxMapValue_write :: "tableDict \<Rightarrow> writer \<Rightarrow> int list \<Rightarrow> error + writer" where
  "VarIdxMapValue_write tableDict writer mapping =
     (case tableDict_get tableDict ''EntryFormat'' of Inl e \<Rightarrow> Inl e | Inr fmt \<Rightarrow>
      let writer = setCountValue ''MappingCount'' (int (length mapping)) writer in
      case VarIdx_write_method (VarIdx_entrySize fmt) of Inl e \<Rightarrow> Inl e | Inr write \<Rightarrow>
        VarIdxMapValue_write_loop fmt write mapping writer)"

section \<open>AATLookup\<close>

text \<open>
  \<^verbatim>\<open>AATLookup\<close> (lines 594-795). The font is the glyph namespace the spec lists as an
  external capability: the glyph ID of a name, the name of a glyph ID, the number of
  glyphs (\<^verbatim>\<open>len(font.getGlyphOrder())\<close>) and the lazy flag. \<^verbatim>\<open>self.converter\<close> is the
  converter of the values, with its \<^verbatim>\<open>staticSize\<close>, \<^verbatim>\<open>read\<close> and \<^verbatim>\<open>write\<close>; the
  lookup passes it \<^verbatim>\<open>tableDict=None\<close>, here the empty dictionary.
\<close>

record 'g font =
  getGlyphID :: "'g \<Rightarrow> int"
  getGlyphName :: "int \<Rightarrow> 'g"
  numGlyphs :: nat
  lazy :: bool

record 'v converter =
  staticSize :: nat
  cread :: "tableDict \<Rightarrow> reader \<Rightarrow> error + ('v \<times> reader)"
  cwrite :: "writer \<Rightarrow> 'v \<Rightarrow> error + writer"

text \<open>\<^verbatim>\<open>UShort\<close> (lines 220-225) and \<^verbatim>\<open>GlyphID\<close> (268-282) as value converters.\<close>

definition UShort_converter :: "int converter" where
  "UShort_converter =
     \<lparr>staticSize = 2, cread = (\<lambda>tableDict. readUShort), cwrite = writeUShort\<rparr>"

definition GlyphID_converter :: "'g font \<Rightarrow> 'g converter" where
  "GlyphID_converter font =
     \<lparr>staticSize = 2,
      cread = (\<lambda>tableDict reader.
                 case readUShort reader of
                   Inl e \<Rightarrow> Inl e
                 | Inr (gid, reader') \<Rightarrow> Inr (getGlyphName font gid, reader')),
      cwrite = (\<lambda>writer value. writeUShort writer (getGlyphID font value))\<rparr>"

text \<open>Sequencing of calls that may raise: the first exception ends the sequence.\<close>

definition ebind :: "error + 'a \<Rightarrow> ('a \<Rightarrow> error + 'b) \<Rightarrow> error + 'b" where
  "ebind m f = (case m of Inl e \<Rightarrow> Inl e | Inr x \<Rightarrow> f x)"

text \<open>
  Modelled from the spec: \<^verbatim>\<open>getSearchRange\<close> is in \<^verbatim>\<open>fontTools.ttLib\<close>, outside the
  sources at hand. The spec: binary-search headers use the standard power-of-two
  search-range construction. \<open>searchRange\<close> is the largest power of two not above the
  number of units, times the unit size; \<open>entrySelector\<close> is the exponent of that
  power; \<open>rangeShift\<close> is what remains of the units.
\<close>

fun bit_length :: "nat \<Rightarrow> nat" where
  "bit_length x = (if x = 0 then 0 else Suc (bit_length (x div 2)))"

declare bit_length.simps [simp del]

definition maxPowerOfTwo :: "nat \<Rightarrow> nat" where
  "maxPowerOfTwo x = bit_length x - 1"

definition getSearchRange :: "nat \<Rightarrow> nat \<Rightarrow> int \<times> int \<times> int" where
  "getSearchRange n itemSize =
     (let exponent = maxPowerOfTwo n;
          searchRange = 2 ^ exponent * int itemSize;
          entrySelector = int exponent;
          rangeShift = max 0 (int n * int itemSize - searchRange)
      in (searchRange, entrySelector, rangeShift))"

definition BIN_SEARCH_HEADER_SIZE :: nat where
  "BIN_SEARCH_HEADER_SIZE = 10"

definition writeBinSearchHeader :: "writer \<Rightarrow> nat \<Rightarrow> nat \<Rightarrow> error + writer" where
  "writeBinSearchHeader writer numUnits unitSize =
     ebind (writeUShort writer (int unitSize)) (\<lambda>writer.
     ebind (writeUShort writer (int numUnits)) (\<lambda>writer.
     case getSearchRange numUnits unitSize of
       (searchRange, entrySelector, rangeShift) \<Rightarrow>
         ebind (writeUShort writer searchRange) (\<lambda>writer.
         ebind (writeUShort writer entrySelector) (\<lambda>writer.
         writeUShort writer rangeShift))))"

text \<open>The loops of the four \<^verbatim>\<open>writeFormat\<close> methods.\<close>

fun write_values_loop :: "'v converter \<Rightarrow> writer \<Rightarrow> (int \<times> 'v) list \<Rightarrow> error + writer" where
  "write_values_loop conv writer [] = Inr writer"
| "write_values_loop conv writer ((glyphID, value) # rest) =
     ebind (cwrite conv writer value) (\<lambda>writer. write_values_loop conv writer rest)"

fun write_segments_loop ::
  "'v converter \<Rightarrow> writer \<Rightarrow> (int \<times> int \<times> 'v) list \<Rightarrow> error + writer" where
  "write_segments_loop conv writer [] = Inr writer"
| "write_segments_loop conv writer ((firstGlyph, lastGlyph, value) # rest) =
     ebind (writeUShort writer lastGlyph) (\<lambda>writer.
     ebind (writeUShort writer firstGlyph) (\<lambda>writer.
     ebind (cwrite conv writer value) (\<lambda>writer.
     write_segments_loop conv writer rest)))"

fun write_pairs_loop :: "'v converter \<Rightarrow> writer \<Rightarrow> (int \<times> 'v) list \<Rightarrow> error + writer" where
  "write_pairs_loop conv writer [] = Inr writer"
| "write_pairs_loop conv writer ((glyphID, value) # rest) =
     ebind (writeUShort writer glyphID) (\<lambda>writer.
     ebind (cwrite conv writer value) (\<lambda>writer.
     write_pairs_loop conv writer rest))"

definition writeFormat0 :: "'v converter \<Rightarrow> writer \<Rightarrow> (int \<times> 'v) list \<Rightarrow> error + writer" where
  "writeFormat0 conv writer values =
     ebind (writeUShort writer 0) (\<lambda>writer. write_values_loop conv writer values)"

definition writeFormat2 ::
  "'v converter \<Rightarrow> writer \<Rightarrow> (int \<times> int \<times> 'v) list \<Rightarrow> error + writer" where
  "writeFormat2 conv writer segments =
     ebind (writeUShort writer 2) (\<lambda>writer.
     let valueSize = staticSize conv;
         numUnits = length segments;
         unitSize = valueSize + 4
     in
     ebind (writeBinSearchHeader writer numUnits unitSize) (\<lambda>writer.
     ebind (write_segments_loop conv writer segments) (\<lambda>writer.
     ebind (writeUShort writer 0xFFFF) (\<lambda>writer.
     ebind (writeUShort writer 0xFFFF) (\<lambda>writer.
     Inr (writeData writer (replicate valueSize 0)))))))"

definition writeFormat6 :: "'v converter \<Rightarrow> writer \<Rightarrow> (int \<times> 'v) list \<Rightarrow> error + writer" where
  "writeFormat6 conv writer values =
     ebind (writeUShort writer 6) (\<lambda>writer.
     let valueSize = staticSize conv;
         numUnits = length values;
         unitSize = valueSize + 2
     in
     ebind (writeBinSearchHeader writer numUnits unitSize) (\<lambda>writer.
     ebind (write_pairs_loop conv writer values) (\<lambda>writer.
     ebind (writeUShort writer 0xFFFF) (\<lambda>writer.
     Inr (writeData writer (replicate valueSize 0))))))"

definition writeFormat8 :: "'v converter \<Rightarrow> writer \<Rightarrow> (int \<times> 'v) list \<Rightarrow> error + writer" where
  "writeFormat8 conv writer values =
     (case values of
        [] \<Rightarrow> Inl IndexError
      | (firstGlyphID, _) # _ \<Rightarrow>
          ebind (writeUShort writer 8) (\<lambda>writer.
          ebind (writeUShort writer firstGlyphID) (\<lambda>writer.
          ebind (writeUShort writer (int (length values))) (\<lambda>writer.
          write_values_loop conv writer values))))"

text \<open>A candidate is the triple a \<^verbatim>\<open>buildFormat\<close> method returns: the size, the
  format number and the deferred call of the \<^verbatim>\<open>writeFormat\<close> method on what it is to
  write; \<^verbatim>\<open>None\<close> is \<open>None\<close>.\<close>

datatype 'v writeMethod =
    WriteFormat0 "(int \<times> 'v) list"
  | WriteFormat2 "(int \<times> int \<times> 'v) list"
  | WriteFormat6 "(int \<times> 'v) list"
  | WriteFormat8 "(int \<times> 'v) list"

fun runWriteMethod :: "'v converter \<Rightarrow> writer \<Rightarrow> 'v writeMethod \<Rightarrow> error + writer" where
  "runWriteMethod conv writer (WriteFormat0 values) = writeFormat0 conv writer values"
| "runWriteMethod conv writer (WriteFormat2 segments) = writeFormat2 conv writer segments"
| "runWriteMethod conv writer (WriteFormat6 values) = writeFormat6 conv writer values"
| "runWriteMethod conv writer (WriteFormat8 values) = writeFormat8 conv writer values"

type_synonym 'v candidate = "nat \<times> nat \<times> 'v writeMethod"

definition buildFormat0 ::
  "'g font \<Rightarrow> 'v converter \<Rightarrow> (int \<times> 'v) list \<Rightarrow> 'v candidate option" where
  "buildFormat0 font conv values =
     (if length values \<noteq> numGlyphs font then None
      else
        let valueSize = staticSize conv in
        Some (2 + numGlyphs font * valueSize, 0, WriteFormat0 values))"

fun segments_loop ::
  "(int \<times> 'v) list \<Rightarrow> int \<Rightarrow> int \<Rightarrow> 'v \<Rightarrow> (int \<times> int \<times> 'v) list
     \<Rightarrow> (int \<times> int \<times> 'v) list" where
  "segments_loop [] segStart segEnd segValue segments =
     segments @ [(segStart, segEnd, segValue)]"
| "segments_loop ((glyphID, curValue) # rest) segStart segEnd segValue segments =
     (if glyphID \<noteq> segEnd + 1 \<or> curValue \<noteq> segValue
      then segments_loop rest glyphID glyphID curValue
             (segments @ [(segStart, segEnd, segValue)])
      else segments_loop rest segStart glyphID segValue segments)"

definition buildFormat2 ::
  "'v converter \<Rightarrow> (int \<times> 'v) list \<Rightarrow> error + 'v candidate option" where
  "buildFormat2 conv values =
     (case values of
        [] \<Rightarrow> Inl IndexError
      | (segStart, segValue) # rest \<Rightarrow>
          let segments = segments_loop rest segStart segStart segValue [];
              valueSize = staticSize conv;
              numUnits = length segments + 1;
              unitSize = valueSize + 4
          in Inr (Some (2 + BIN_SEARCH_HEADER_SIZE + numUnits * unitSize, 2,
                        WriteFormat2 segments)))"

definition buildFormat6 :: "'v converter \<Rightarrow> (int \<times> 'v) list \<Rightarrow> 'v candidate option" where
  "buildFormat6 conv values =
     (let valueSize = staticSize conv;
          numUnits = length values;
          unitSize = valueSize + 2
      in Some (2 + BIN_SEARCH_HEADER_SIZE + (numUnits + 1) * unitSize, 6,
               WriteFormat6 values))"

definition buildFormat8 ::
  "'v converter \<Rightarrow> (int \<times> 'v) list \<Rightarrow> error + 'v candidate option" where
  "buildFormat8 conv values =
     (case values of
        [] \<Rightarrow> Inl IndexError
      | (minGlyphID, _) # _ \<Rightarrow>
          let maxGlyphID = fst (last values) in
          if int (length values) \<noteq> maxGlyphID - minGlyphID + 1 then Inr None
          else
            let valueSize = staticSize conv in
            Inr (Some (6 + length values * valueSize, 8, WriteFormat8 values)))"

text \<open>The list literal of \<^verbatim>\<open>write\<close>, its four elements evaluated in order, and
  \<^verbatim>\<open>filter(None, ...)\<close> on it.\<close>

definition AATLookup_candidates ::
  "'v converter \<Rightarrow> 'g font \<Rightarrow> (int \<times> 'v) list \<Rightarrow> error + 'v candidate list" where
  "AATLookup_candidates conv font values =
     (let f0 = buildFormat0 font conv values in
      ebind (buildFormat2 conv values) (\<lambda>f2.
      let f6 = buildFormat6 conv values in
      ebind (buildFormat8 conv values) (\<lambda>f8.
      Inr (List.map_filter (\<lambda>c. c) [f0, f2, f6, f8]))))"

definition AATLookup_write ::
  "'v::linorder converter \<Rightarrow> 'g font \<Rightarrow> writer \<Rightarrow> ('g \<times> 'v) list \<Rightarrow> error + writer" where
  "AATLookup_write conv font writer value =
     (let values = sort (map (\<lambda>(glyph, val). (getGlyphID font glyph, val)) value) in
      ebind (AATLookup_candidates conv font values) (\<lambda>candidates.
      let formats = sort_key (\<lambda>(dataSize, lookupFormat, writeMethod). (dataSize, lookupFormat))
                      candidates
      in case formats of
           [] \<Rightarrow> Inl IndexError
         | (dataSize, lookupFormat, writeMethod) # _ \<Rightarrow>
             let pos = getDataLength writer in
             ebind (runWriteMethod conv writer writeMethod) (\<lambda>writer'.
             let actualSize = int (getDataLength writer') - int pos in
             if actualSize = int dataSize then Inr writer' else Inl AssertionError)))"


text \<open>
  Decoding. The mapping a \<^verbatim>\<open>readFormat\<close> method builds is a Python dictionary from
  glyph names to values: an association list in insertion order, an assignment to a
  key already present replacing its value. Iterating over what \<^verbatim>\<open>readArray\<close> returns
  forces a lazy list, element after element.
\<close>

fun dict_set :: "'k \<Rightarrow> 'v \<Rightarrow> ('k \<times> 'v) list \<Rightarrow> ('k \<times> 'v) list" where
  "dict_set k v [] = [(k, v)]"
| "dict_set k v ((k', v') # rest) =
     (if k' = k then (k', v) # rest else (k', v') # dict_set k v rest)"

definition array_to_list :: "'a array \<Rightarrow> error + 'a list" where
  "array_to_list a =
     (case a of
        PyList l \<Rightarrow> Inr l
      | Lazy l \<Rightarrow>
          (case LazyList_getitems l (map int [0..<length (ldata l)]) of
             Inl e \<Rightarrow> Inl e
           | Inr (vs, l') \<Rightarrow> Inr vs))"

definition converter_readArray ::
  "'v converter \<Rightarrow> 'g font \<Rightarrow> reader \<Rightarrow> int \<Rightarrow> error + ('v list \<times> reader)" where
  "converter_readArray conv font reader n =
     ebind (readArray (cread conv) (BaseConverter_getRecordSize (Some (staticSize conv)))
              (lazy font) Map.empty reader n) (\<lambda>(arr, reader').
     ebind (array_to_list arr) (\<lambda>l. Inr (l, reader')))"

definition set_glyphs ::
  "'g font \<Rightarrow> int \<Rightarrow> 'v list \<Rightarrow> ('g \<times> 'v) list \<Rightarrow> ('g \<times> 'v) list" where
  "set_glyphs font first' vs mapping =
     fold (\<lambda>(k, v) m. dict_set (getGlyphName font (first' + int k)) v m) (enumerate 0 vs) mapping"

definition readFormat0 ::
  "'v converter \<Rightarrow> 'g font \<Rightarrow> reader \<Rightarrow> error + (('g \<times> 'v) list \<times> reader)" where
  "readFormat0 conv font reader =
     ebind (converter_readArray conv font reader (int (numGlyphs font))) (\<lambda>(l, reader').
     Inr (set_glyphs font 0 l [], reader'))"

fun readFormat2_loop ::
  "'v converter \<Rightarrow> 'g font \<Rightarrow> int \<Rightarrow> int \<Rightarrow> nat list \<Rightarrow> reader \<Rightarrow> ('g \<times> 'v) list
     \<Rightarrow> error + (('g \<times> 'v) list \<times> reader)" where
  "readFormat2_loop conv font pos0 unitSize [] reader mapping = Inr (mapping, reader)"
| "readFormat2_loop conv font pos0 unitSize (i # rest) reader mapping =
     (let reader = seek (pos0 + int i * unitSize + 12) reader in
      ebind (readUShort reader) (\<lambda>(last', reader).
      ebind (readUShort reader) (\<lambda>(first', reader).
      ebind (cread conv Map.empty reader) (\<lambda>(value, reader).
      readFormat2_loop conv font pos0 unitSize rest reader
        (if last' \<noteq> 0xFFFF
         then fold (\<lambda>k m. dict_set (getGlyphName font k) value m) [first'..last'] mapping
         else mapping)))))"

definition readFormat2 ::
  "'v converter \<Rightarrow> 'g font \<Rightarrow> reader \<Rightarrow> error + (('g \<times> 'v) list \<times> reader)" where
  "readFormat2 conv font reader =
     (let pos0 = pos reader - 2 in
      ebind (readUShort reader) (\<lambda>(unitSize, reader).
      ebind (readUShort reader) (\<lambda>(numUnits, reader).
      if \<not> unitSize \<ge> 4 + int (staticSize conv) then Inl AssertionError
      else readFormat2_loop conv font pos0 unitSize [0..<nat numUnits] reader [])))"

fun readFormat4_loop ::
  "'v converter \<Rightarrow> 'g font \<Rightarrow> int \<Rightarrow> int \<Rightarrow> nat list \<Rightarrow> reader \<Rightarrow> ('g \<times> 'v) list
     \<Rightarrow> error + (('g \<times> 'v) list \<times> reader)" where
  "readFormat4_loop conv font pos0 unitSize [] reader mapping = Inr (mapping, reader)"
| "readFormat4_loop conv font pos0 unitSize (i # rest) reader mapping =
     (let reader = seek (pos0 + int i * unitSize + 12) reader in
      ebind (readUShort reader) (\<lambda>(last', reader).
      ebind (readUShort reader) (\<lambda>(first', reader).
      ebind (readUShort reader) (\<lambda>(off, reader).
      if last' \<noteq> 0xFFFF
      then
        let dataReader = getSubReader 0 reader;
            dataReader = seek (pos0 + off) dataReader
        in
        ebind (converter_readArray conv font dataReader (last' - first' + 1)) (\<lambda>(l, dataReader').
        readFormat4_loop conv font pos0 unitSize rest reader (set_glyphs font first' l mapping))
      else readFormat4_loop conv font pos0 unitSize rest reader mapping))))"

definition readFormat4 ::
  "'v converter \<Rightarrow> 'g font \<Rightarrow> reader \<Rightarrow> error + (('g \<times> 'v) list \<times> reader)" where
  "readFormat4 conv font reader =
     (let pos0 = pos reader - 2 in
      ebind (readUShort reader) (\<lambda>(unitSize, reader).
      if \<not> unitSize \<ge> 6 then Inl AssertionError
      else
        ebind (readUShort reader) (\<lambda>(numUnits, reader).
        readFormat4_loop conv font pos0 unitSize [0..<nat numUnits] reader [])))"

fun readFormat6_loop ::
  "'v converter \<Rightarrow> 'g font \<Rightarrow> int \<Rightarrow> int \<Rightarrow> nat list \<Rightarrow> reader \<Rightarrow> ('g \<times> 'v) list
     \<Rightarrow> error + (('g \<times> 'v) list \<times> reader)" where
  "readFormat6_loop conv font pos0 unitSize [] reader mapping = Inr (mapping, reader)"
| "readFormat6_loop conv font pos0 unitSize (i # rest) reader mapping =
     (let reader = seek (pos0 + int i * unitSize + 12) reader in
      ebind (readUShort reader) (\<lambda>(glyphID, reader).
      ebind (cread conv Map.empty reader) (\<lambda>(value, reader).
      readFormat6_loop conv font pos0 unitSize rest reader
        (if glyphID \<noteq> 0xFFFF then dict_set (getGlyphName font glyphID) value mapping
         else mapping))))"

definition readFormat6 ::
  "'v converter \<Rightarrow> 'g font \<Rightarrow> reader \<Rightarrow> error + (('g \<times> 'v) list \<times> reader)" where
  "readFormat6 conv font reader =
     (let pos0 = pos reader - 2 in
      ebind (readUShort reader) (\<lambda>(unitSize, reader).
      if \<not> unitSize \<ge> 2 + int (staticSize conv) then Inl AssertionError
      else
        ebind (readUShort reader) (\<lambda>(numUnits, reader).
        readFormat6_loop conv font pos0 unitSize [0..<nat numUnits] reader [])))"

definition readFormat8 ::
  "'v converter \<Rightarrow> 'g font \<Rightarrow> reader \<Rightarrow> error + (('g \<times> 'v) list \<times> reader)" where
  "readFormat8 conv font reader =
     ebind (readUShort reader) (\<lambda>(first', reader).
     ebind (readUShort reader) (\<lambda>(n, reader).
     ebind (converter_readArray conv font reader n) (\<lambda>(l, reader').
     Inr (set_glyphs font first' l [], reader'))))"

definition AATLookup_read ::
  "'v converter \<Rightarrow> 'g font \<Rightarrow> reader \<Rightarrow> error + (('g \<times> 'v) list \<times> reader)" where
  "AATLookup_read conv font reader =
     ebind (readUShort reader) (\<lambda>(format, reader).
     if format = 0 then readFormat0 conv font reader
     else if format = 2 then readFormat2 conv font reader
     else if format = 4 then readFormat4 conv font reader
     else if format = 6 then readFormat6 conv font reader
     else if format = 8 then readFormat8 conv font reader
     else Inl AssertionError)"

section \<open>STXHeader\<close>

text \<open>
  \<^verbatim>\<open>STXHeader\<close> (lines 886-1025). A transition is an action object of
  \<^verbatim>\<open>otTables.py\<close>: a \<^verbatim>\<open>ContextualMorphAction\<close>, with its \<^verbatim>\<open>MarkIndex\<close> and
  \<^verbatim>\<open>CurrentIndex\<close>, or another \<^verbatim>\<open>AATAction\<close>; \<open>'x\<close> stands for its other fields. The
  action class (\<^verbatim>\<open>self.tableClass\<close>) is a parameter: whether it is a subclass of
  \<^verbatim>\<open>ContextualMorphAction\<close> (then the header has a per-glyph lookup table), its
  \<^verbatim>\<open>staticSize\<close>, the \<^verbatim>\<open>staticSize\<close> of an action, the bytes an action compiles to
  (\<^verbatim>\<open>compile\<close> into a fresh writer, then \<^verbatim>\<open>getAllData\<close>) and \<^verbatim>\<open>decompile\<close>. A state
  is its \<^verbatim>\<open>Transitions\<close> dictionary, from class indices to actions.
\<close>

datatype 'x action =
    ContextualMorphAction (MarkIndex: int) (CurrentIndex: int) 'x
  | AATAction 'x

record 'x actionClass =
  isContextual :: bool
  class_staticSize :: nat
  action_staticSize :: "'x action \<Rightarrow> nat"
  compileAction :: "'x action \<Rightarrow> error + byte list"
  decompileAction :: "reader \<Rightarrow> error + 'x action"

type_synonym 'x AATState = "(int \<times> 'x action) list"

record ('g, 'x) AATStateTable =
  GlyphClassCount :: int
  GlyphClasses :: "('g \<times> int) list"
  States :: "'x AATState list"
  PerGlyphLookups :: "('g \<times> 'g) list list"

text \<open>Modelled from the spec: \<^verbatim>\<open>pad\<close> is in \<^verbatim>\<open>fontTools.misc.textTools\<close>, outside
  the sources at hand. The spec: each section is individually 4-byte aligned. The data
  is followed by zero bytes up to the next multiple of the size.\<close>

definition pad :: "byte list \<Rightarrow> nat \<Rightarrow> byte list" where
  "pad bs size' =
     (if size' > 1 \<and> length bs mod size' \<noteq> 0
      then bs @ replicate (size' - length bs mod size') 0 else bs)"

text \<open>\<^verbatim>\<open>_countPerGlyphLookups\<close>: the two nested loops, \<^verbatim>\<open>numLookups\<close> carried along.\<close>

fun count_transitions :: "'x action list \<Rightarrow> int \<Rightarrow> int" where
  "count_transitions [] numLookups = numLookups"
| "count_transitions (t # ts) numLookups =
     count_transitions ts
       (case t of
          ContextualMorphAction mark cur _ \<Rightarrow>
            let numLookups = (if mark \<noteq> 0xFFFF then max numLookups (mark + 1)
                              else numLookups)
            in (if cur \<noteq> 0xFFFF then max numLookups (cur + 1) else numLookups)
        | AATAction _ \<Rightarrow> numLookups)"

fun count_states :: "'x AATState list \<Rightarrow> int \<Rightarrow> int" where
  "count_states [] numLookups = numLookups"
| "count_states (state # states) numLookups =
     count_states states (count_transitions (map snd state) numLookups)"

definition STXHeader_countPerGlyphLookups :: "('g, 'x) AATStateTable \<Rightarrow> int" where
  "STXHeader_countPerGlyphLookups table = count_states (States table) 0"

text \<open>\<^verbatim>\<open>_compilePerGlyphLookups\<close>. The bytes of the writer that holds the lookups as
  sub-writers are the sink's to lay out: \<open>allData\<close> is \<^verbatim>\<open>getAllData\<close> on such a
  writer, a parameter.\<close>

fun compile_lookups ::
  "'g::linorder font \<Rightarrow> writer \<Rightarrow> ('g \<times> 'g) list list \<Rightarrow> error + writer" where
  "compile_lookups font writer [] = Inr writer"
| "compile_lookups font writer (lookup # rest) =
     (let lookupWriter = getSubWriter writer;
          lookupWriter = set_longOffset True lookupWriter
      in ebind (AATLookup_write (GlyphID_converter font) font lookupWriter lookup)
           (\<lambda>lookupWriter'. compile_lookups font (writeSubTable writer lookupWriter') rest))"

definition STXHeader_compilePerGlyphLookups ::
  "'x actionClass \<Rightarrow> 'g::linorder font \<Rightarrow> (writer \<Rightarrow> byte list) \<Rightarrow> ('g, 'x) AATStateTable
     \<Rightarrow> error + byte list" where
  "STXHeader_compilePerGlyphLookups cls font allData table =
     (if \<not> isContextual cls then Inr []
      else
        let numLookups = STXHeader_countPerGlyphLookups table in
        if int (length (PerGlyphLookups table)) \<noteq> numLookups then Inl AssertionError
        else ebind (compile_lookups font newWriter (PerGlyphLookups table))
               (\<lambda>writer. Inr (allData writer)))"

text \<open>\<^verbatim>\<open>STXHeader.write\<close>: the loop over the classes of one state, and the loop over
  the states, carrying the state-array writer, the entries and the dictionary from
  entry bytes to entry index.\<close>

type_synonym entryState = "writer \<times> byte list list \<times> (byte list \<Rightarrow> int option)"

fun write_state_row ::
  "'x actionClass \<Rightarrow> 'x AATState \<Rightarrow> int list \<Rightarrow> entryState \<Rightarrow> error + entryState" where
  "write_state_row cls state [] st = Inr st"
| "write_state_row cls state (glyphClass # rest) (stateArrayWriter, entries, entryIDs) =
     (case map_of state glyphClass of
        None \<Rightarrow> Inl KeyError
      | Some transition \<Rightarrow>
          ebind (compileAction cls transition) (\<lambda>entryData.
          if length entryData \<noteq> action_staticSize cls transition then Inl AssertionError
          else
            (case entryIDs entryData of
               None \<Rightarrow>
                 let entryIndex = int (length entries) in
                 ebind (writeUShort stateArrayWriter entryIndex) (\<lambda>stateArrayWriter.
                 write_state_row cls state rest
                   (stateArrayWriter, entries @ [entryData],
                    entryIDs(entryData \<mapsto> entryIndex)))
             | Some entryIndex \<Rightarrow>
                 ebind (writeUShort stateArrayWriter entryIndex) (\<lambda>stateArrayWriter.
                 write_state_row cls state rest (stateArrayWriter, entries, entryIDs)))))"

fun write_states ::
  "'x actionClass \<Rightarrow> 'x AATState list \<Rightarrow> int list \<Rightarrow> entryState \<Rightarrow> error + entryState" where
  "write_states cls [] classes st = Inr st"
| "write_states cls (state # states) classes st =
     ebind (write_state_row cls state classes st) (\<lambda>st. write_states cls states classes st)"

definition STXHeader_write ::
  "'x actionClass \<Rightarrow> 'g::linorder font \<Rightarrow> (writer \<Rightarrow> byte list) \<Rightarrow> writer
     \<Rightarrow> ('g, 'x) AATStateTable \<Rightarrow> error + writer" where
  "STXHeader_write cls font allData writer value =
     ebind (AATLookup_write UShort_converter font newWriter (GlyphClasses value))
       (\<lambda>glyphClassWriter.
     let glyphClassData = pad (getAllData glyphClassWriter) 4 in
     if GlyphClasses value = [] then Inl ValueError
     else
       let glyphClassCount = Max (set (map snd (GlyphClasses value))) + 1;
           glyphClassTableOffset = (if isContextual cls then 16 + 4 else 16)
       in
       ebind (write_states cls (States value) [0..glyphClassCount - 1] (newWriter, [], Map.empty))
         (\<lambda>(stateArrayWriter, entries, entryIDs).
       let stateArrayOffset = glyphClassTableOffset + int (length glyphClassData);
           stateArrayData = pad (getAllData stateArrayWriter) 4;
           entryTableOffset = stateArrayOffset + int (length stateArrayData);
           entryTableData = pad (concat entries) 4;
           perGlyphOffset = entryTableOffset + int (length entryTableData)
       in
       ebind (STXHeader_compilePerGlyphLookups cls font allData value) (\<lambda>perGlyphBytes.
       let perGlyphData = pad perGlyphBytes 4 in
       ebind (writeULong writer glyphClassCount) (\<lambda>writer.
       ebind (writeULong writer glyphClassTableOffset) (\<lambda>writer.
       ebind (writeULong writer stateArrayOffset) (\<lambda>writer.
       ebind (writeULong writer entryTableOffset) (\<lambda>writer.
       ebind (if isContextual cls then writeULong writer perGlyphOffset else Inr writer)
         (\<lambda>writer.
       let writer = writeData writer glyphClassData;
           writer = writeData writer stateArrayData;
           writer = writeData writer entryTableData;
           writer = writeData writer perGlyphData
       in Inr writer))))))))"

text \<open>The compiled bytes of the cells, state after state and class after class, as
  \<^verbatim>\<open>write\<close> computes them: the entry dictionary is stated against this list.\<close>

definition STX_cells ::
  "'x actionClass \<Rightarrow> 'x AATState list \<Rightarrow> int list \<Rightarrow> (error + byte list) list" where
  "STX_cells cls states classes =
     concat (map (\<lambda>state.
       map (\<lambda>glyphClass.
          case map_of state glyphClass of
            None \<Rightarrow> Inl KeyError
          | Some transition \<Rightarrow> compileAction cls transition) classes) states)"










text \<open>What the loops of \<^verbatim>\<open>write\<close> keep true of \<^verbatim>\<open>entries\<close> and \<^verbatim>\<open>entryIDs\<close>: no entry
  is stored twice, and the dictionary maps the bytes of every entry, and nothing else,
  to its index.\<close>

definition entries_inv :: "byte list list \<Rightarrow> (byte list \<Rightarrow> int option) \<Rightarrow> bool" where
  "entries_inv entries entryIDs \<longleftrightarrow>
     distinct entries \<and>
     (\<forall>d i. entryIDs d = Some i \<longleftrightarrow> 0 \<le> i \<and> nat i < length entries \<and> entries ! nat i = d)"

section \<open>Properties of the wire format\<close>

lemma length_be_bytes [simp]: "length (be_bytes n v) = n"
  by (induction n) simp_all

lemma be_int_be_bytes: "be_int (be_bytes n v) = take_bit (8 * n) v"
proof (induction n)
  case 0
  show ?case by simp
next
  case (Suc n)
  have "take_bit (8 * Suc n) v = take_bit (8 * n + 8) v"
    by (simp add: add.commute)
  also have "\<dots> = take_bit (8 * n) v + push_bit (8 * n) (take_bit 8 (drop_bit (8 * n) v))"
    using zmod_zmult2_eq [of "2 ^ 8" v "2 ^ (8 * n)"]
    by (simp add: take_bit_eq_mod drop_bit_eq_div push_bit_eq_mult power_add)
  finally show ?case
    using Suc by (simp add: uint_word_of_int_eq push_bit_eq_mult)
qed

lemma be_int_be_bytes_unsigned:
  "0 \<le> v \<Longrightarrow> v < 2 ^ (8 * n) \<Longrightarrow> be_int (be_bytes n v) = v"
  by (simp add: be_int_be_bytes take_bit_int_eq_self)

lemma be_int_range: "0 \<le> be_int bs \<and> be_int bs < 2 ^ (8 * length bs)"
proof (induction bs)
  case Nil
  show ?case by simp
next
  case (Cons b bs)
  define P :: int where "P = 2 ^ (8 * length bs)"
  have b: "0 \<le> uint b" "uint b \<le> 255"
    using uint_bounded [of b] by simp_all
  have P: "0 < P" by (simp add: P_def)
  have "uint b * P \<le> 255 * P" and "0 \<le> uint b * P"
    using b P by (simp_all add: mult_right_mono)
  moreover have "0 \<le> be_int bs" "be_int bs < P"
    using Cons by (simp_all add: P_def)
  ultimately have "0 \<le> uint b * P + be_int bs \<and> uint b * P + be_int bs < 256 * P"
    by linarith
  then show ?case by (simp add: P_def power_add mult.commute)
qed

lemma readData_Inr:
  "readData n r = Inr (bs, r') \<Longrightarrow>
     length bs = n \<and> data r' = data r \<and> pos r' = pos r + int n \<and>
     bs = take n (drop (nat (pos r)) (data r))"
  by (auto simp: readData_def split: if_splits)

text \<open>A read at a cursor whose remaining bytes start with \<open>bs\<close> returns \<open>bs\<close>.\<close>

lemma readData_prefix:
  assumes "0 \<le> pos r" and "drop (nat (pos r)) (data r) = bs @ rest" and "bs \<noteq> []"
  shows "readData (length bs) r = Inr (bs, r\<lparr>pos := pos r + int (length bs)\<rparr>)"
    and "drop (nat (pos r + int (length bs))) (data r) = rest"
proof -
  have len: "length (data r) - nat (pos r) = length bs + length rest"
    using assms(2) by (metis length_append length_drop)
  moreover have "0 < length bs" using assms(3) by simp
  ultimately have "pos r + int (length bs) \<le> int (length (data r))"
    using assms(1) by linarith
  then show "readData (length bs) r = Inr (bs, r\<lparr>pos := pos r + int (length bs)\<rparr>)"
    using assms by (simp add: readData_def)
  have "nat (pos r + int (length bs)) = length bs + nat (pos r)"
    using assms(1) by linarith
  then show "drop (nat (pos r + int (length bs))) (data r) = rest"
    using assms(2) by (metis append_eq_conv_conj drop_drop)
qed

lemma be_bytes_zero: "be_bytes n 0 = replicate n 0"
  by (induction n) simp_all

lemma be_int_replicate_zero: "be_int (replicate n 0) = 0"
  by (induction n) simp_all

lemma readUnsigned_Inr:
  "readUnsigned n r = Inr (v, r') \<Longrightarrow>
     r' = r\<lparr>pos := pos r + int n\<rparr> \<and> 0 \<le> pos r \<and> pos r + int n \<le> int (length (data r))
     \<and> v = be_int (take n (drop (nat (pos r)) (data r)))"
  by (auto simp: readUnsigned_def readData_def split: if_splits)

lemma readUnsigned_ok:
  "0 \<le> pos r \<Longrightarrow> pos r + int n \<le> int (length (data r)) \<Longrightarrow>
     readUnsigned n r
       = Inr (be_int (take n (drop (nat (pos r)) (data r))), r\<lparr>pos := pos r + int n\<rparr>)"
  by (simp add: readUnsigned_def readData_def)

lemma items_set_items [simp]: "items (set_items its w) = its"
  by (simp add: set_items_def)

lemma items_writeData [simp]: "items (writeData w bs) = items w @ [Data bs]"
  by (simp add: writeData_def append_item_def)

lemma items_getSubWriter [simp]: "items (getSubWriter w) = []"
  by (simp add: getSubWriter_def set_localState_def newWriter_def)

lemma getDataLength_writeData [simp]:
  "getDataLength (writeData w bs) = getDataLength w + length bs"
  by (simp add: getDataLength_def)

lemma getDataLength_append:
  "items w' = items w @ new \<Longrightarrow>
     getDataLength w' = getDataLength w + sum_list (map item_length new)"
  by (simp add: getDataLength_def)

lemma writeUnsigned_Inr:
  "writeUnsigned n w v = Inr w' \<Longrightarrow> w' = writeData w (be_bytes n v) \<and> 0 \<le> v \<and> v < 2 ^ (8 * n)"
  by (auto simp: writeUnsigned_def split: if_splits)

lemma writeUnsigned_ok:
  "0 \<le> v \<Longrightarrow> v < 2 ^ (8 * n) \<Longrightarrow> writeUnsigned n w v = Inr (writeData w (be_bytes n v))"
  by (simp add: writeUnsigned_def)

text \<open>Python's \<^verbatim>\<open>(1 << n) - 1\<close> is the mask of the \<open>n\<close> low bits.\<close>

lemma py_mask_eq: "(push_bit n 1 :: int) - 1 = mask n"
  by (simp add: mask_eq_exp_minus_1 push_bit_eq_mult)

lemma and_py_mask: "(v :: int) AND (push_bit n 1 - 1) = take_bit n v"
  by (simp only: py_mask_eq take_bit_eq_mask)

lemma and_exp_minus_1: "(v :: int) AND 2 ^ n - 1 = take_bit n v"
  by (simp only: take_bit_eq_mask mask_eq_exp_minus_1)

lemma readUnsigned_prefix:
  assumes "0 \<le> pos r" and "drop (nat (pos r)) (data r) = be_bytes n x @ tail"
    and "0 < n" and "0 \<le> x" and "x < 2 ^ (8 * n)"
  shows "readUnsigned n r = Inr (x, r\<lparr>pos := pos r + int n\<rparr>)"
    and "drop (nat (pos r + int n)) (data r) = tail"
proof -
  have ne: "be_bytes n x \<noteq> []"
    using assms(3) by (metis length_be_bytes length_0_conv less_numeral_extra(3))
  from readData_prefix [OF assms(1,2) ne]
  have rd: "readData n r = Inr (be_bytes n x, r\<lparr>pos := pos r + int n\<rparr>)"
    and dr: "drop (nat (pos r + int n)) (data r) = tail"
    by simp_all
  show "readUnsigned n r = Inr (x, r\<lparr>pos := pos r + int n\<rparr>)"
    using rd assms(4,5) by (simp add: readUnsigned_def be_int_be_bytes_unsigned)
  show "drop (nat (pos r + int n)) (data r) = tail"
    by (rule dr)
qed

lemma set_items_writeData [simp]: "set_items xs (writeData w bs) = set_items xs w"
  by (cases w) (simp add: set_items_def writeData_def append_item_def)

lemma set_items_self [simp]: "set_items (items w) w = w"
  by (cases w) (simp add: set_items_def)

section \<open>Version: the major version is checked on both paths\<close>

lemma drop_bit_16_eq_1: "drop_bit 16 (v::int) = 1 \<longleftrightarrow> 65536 \<le> v \<and> v < 131072"
  by (simp add: drop_bit_eq_div) linarith

text \<open>
  C9. \<^verbatim>\<open>Version.read\<close> returns only values whose upper 16 bits are 1 (a value between
  0x00010000 and 0x0001FFFF, which is what the four bytes hold as a signed 32-bit
  number) and raises an assertion error on every other value the four bytes hold;
  \<^verbatim>\<open>Version.write\<close> raises an assertion error whenever the normalised value
  \<^verbatim>\<open>fi2ve(value)\<close> does not have upper 16 bits equal to 1, and otherwise writes that
  normalised value, unchanged, as one signed 32-bit big-endian field.
\<close>

theorem Version_major_checked:
  "(\<forall>v r'. Version_read r = Inr (v, r') \<longrightarrow>
       readLong r = Inr (v, r') \<and> drop_bit 16 v = 1 \<and> 65536 \<le> v \<and> v < 131072)
   \<and> (\<forall>v r'. readLong r = Inr (v, r') \<and> drop_bit 16 v \<noteq> 1 \<longrightarrow>
       Version_read r = Inl AssertionError)
   \<and> (\<forall>v r'. readLong r = Inr (v, r') \<and> drop_bit 16 v = 1 \<longrightarrow>
       Version_read r = Inr (v, r'))
   \<and> (drop_bit 16 (fi2ve x) \<noteq> 1 \<longrightarrow> Version_write fi2ve w x = Inl AssertionError)
   \<and> (drop_bit 16 (fi2ve x) = 1 \<longrightarrow>
       Version_write fi2ve w x = Inr (writeData w (be_bytes 4 (fi2ve x)))
       \<and> be_int (be_bytes 4 (fi2ve x)) = fi2ve x)"
proof (intro conjI allI impI)
  fix v r' assume a: "Version_read r = Inr (v, r')"
  then show "readLong r = Inr (v, r')" and d: "drop_bit 16 v = 1"
    by (auto simp: Version_read_def split: sum.splits if_splits)
  then show "65536 \<le> v" and "v < 131072"
    by (simp_all add: drop_bit_16_eq_1)
next
  fix v r' assume "readLong r = Inr (v, r') \<and> drop_bit 16 v \<noteq> 1"
  then show "Version_read r = Inl AssertionError"
    by (simp add: Version_read_def)
next
  fix v r' assume "readLong r = Inr (v, r') \<and> drop_bit 16 v = 1"
  then show "Version_read r = Inr (v, r')"
    by (simp add: Version_read_def)
next
  assume "drop_bit 16 (fi2ve x) \<noteq> 1"
  then show "Version_write fi2ve w x = Inl AssertionError"
    by (simp add: Version_write_def)
next
  assume a: "drop_bit 16 (fi2ve x) = 1"
  then have b: "65536 \<le> fi2ve x" "fi2ve x < 131072"
    by (simp_all add: drop_bit_16_eq_1)
  then show "Version_write fi2ve w x = Inr (writeData w (be_bytes 4 (fi2ve x)))"
    using a by (simp add: Version_write_def writeLong_def writeSigned_def)
  show "be_int (be_bytes 4 (fi2ve x)) = fi2ve x"
    using b by (intro be_int_be_bytes_unsigned) simp_all
qed

theorem Version_major_checked_witness:
  "Version_read \<lparr>data = [0, 1, 0, 0], offset = 0, pos = 0\<rparr>
     = Inr (65536, \<lparr>data = [0, 1, 0, 0], offset = 0, pos = 4\<rparr>)
   \<and> Version_read \<lparr>data = [0, 2, 0, 0], offset = 0, pos = 0\<rparr> = Inl AssertionError
   \<and> Version_write (\<lambda>x. x) newWriter 65536 = Inr (writeData newWriter [0, 1, 0, 0])
   \<and> Version_write (\<lambda>x. x) newWriter 131072 = Inl AssertionError"
proof -
  have ok: "readLong \<lparr>data = [0, 1, 0, 0], offset = 0, pos = 0\<rparr>
      = Inr (65536, \<lparr>data = [0, 1, 0, 0], offset = 0, pos = 4\<rparr>)"
    by code_simp
  have bad: "readLong \<lparr>data = [0, 2, 0, 0], offset = 0, pos = 0\<rparr>
      = Inr (131072, \<lparr>data = [0, 2, 0, 0], offset = 0, pos = 4\<rparr>)"
    by code_simp
  have d1: "drop_bit 16 (65536::int) = 1" and d2: "drop_bit 16 (131072::int) \<noteq> 1"
    by (simp_all add: drop_bit_eq_div)
  have bs: "be_bytes 4 65536 = [0, 1, 0, 0]"
    by code_simp
  note good = Version_major_checked
    [of "\<lparr>data = [0, 1, 0, 0], offset = 0, pos = 0\<rparr>" "\<lambda>x. x" 65536 newWriter]
  note wrong = Version_major_checked
    [of "\<lparr>data = [0, 2, 0, 0], offset = 0, pos = 0\<rparr>" "\<lambda>x. x" 131072 newWriter]
  have c1: "Version_read \<lparr>data = [0, 1, 0, 0], offset = 0, pos = 0\<rparr>
     = Inr (65536, \<lparr>data = [0, 1, 0, 0], offset = 0, pos = 4\<rparr>)"
    using good ok d1 by blast
  have c2: "Version_read \<lparr>data = [0, 2, 0, 0], offset = 0, pos = 0\<rparr> = Inl AssertionError"
    using wrong bad d2 by blast
  have c3: "Version_write (\<lambda>x. x) newWriter 65536
     = Inr (writeData newWriter (be_bytes 4 65536))"
    using good d1 by blast
  have c4: "Version_write (\<lambda>x. x) newWriter 131072 = Inl AssertionError"
    using wrong d2 by blast
  show ?thesis
    using c1 c2 c3 c4 unfolding bs by (intro conjI)
qed

section \<open>Offset-addressed tables: the absent table\<close>

lemma readOffset_eq: "readOffset c r = readUnsigned (Table_staticSize c) r"
  by (cases c) (simp_all add: readUShort_def readULong_def)

lemma writeNullOffset_eq:
  "writeNullOffset c w = Inr (writeData w (replicate (Table_staticSize c) 0))"
  by (cases c)
    (simp_all add: writeNullOffset_def writeUShort_def writeULong_def writeUnsigned_def
      be_bytes_zero)

text \<open>
  C5. For the 16-bit \<^verbatim>\<open>Table\<close> and the 32-bit \<^verbatim>\<open>LTable\<close> (and for \<^verbatim>\<open>ExtSubTable\<close>,
  which first flags the writer as an extension writer): writing \<^verbatim>\<open>None\<close> appends one
  item to the writer, the all-zero offset of the converter's width (2 or 4 bytes), and
  nothing else, whatever the table class's \<^verbatim>\<open>compile\<close> is; reading at a cursor whose
  next 2 or 4 bytes are zero returns \<^verbatim>\<open>None\<close> and only moves the cursor past the
  offset, whatever the font's lazy flag and the table class's \<^verbatim>\<open>decompile\<close> are (no
  sub-reader is made, nothing else of the buffer is read), so a zero offset is not an
  error; and \<^verbatim>\<open>None\<close> is returned for no other offset.
\<close>

theorem Table_absent:
  "Table_write c nm compile w None ri
     = Inr (writeData (if c = ExtSubTable then set_Extension True w else w)
              (replicate (Table_staticSize c) 0))
   \<and> (0 \<le> pos r \<and> pos r + int (Table_staticSize c) \<le> int (length (data r))
        \<and> take (Table_staticSize c) (drop (nat (pos r)) (data r))
            = replicate (Table_staticSize c) 0
      \<longrightarrow> Table_read c lz decompile r
            = Inr (None, r\<lparr>pos := pos r + int (Table_staticSize c)\<rparr>))
   \<and> (\<forall>r'. Table_read c lz decompile r = Inr (None, r') \<longrightarrow> readOffset c r = Inr (0, r'))"
proof (intro conjI impI allI)
  show "Table_write c nm compile w None ri
     = Inr (writeData (if c = ExtSubTable then set_Extension True w else w)
              (replicate (Table_staticSize c) 0))"
    by (simp add: Table_write_def writeNullOffset_eq)
next
  assume a: "0 \<le> pos r \<and> pos r + int (Table_staticSize c) \<le> int (length (data r))
        \<and> take (Table_staticSize c) (drop (nat (pos r)) (data r))
            = replicate (Table_staticSize c) 0"
  then have "readOffset c r = Inr (0, r\<lparr>pos := pos r + int (Table_staticSize c)\<rparr>)"
    by (simp add: readOffset_eq readUnsigned_ok be_int_replicate_zero)
  then show "Table_read c lz decompile r
            = Inr (None, r\<lparr>pos := pos r + int (Table_staticSize c)\<rparr>)"
    by (simp add: Table_read_def)
next
  fix r' assume "Table_read c lz decompile r = Inr (None, r')"
  then show "readOffset c r = Inr (0, r')"
    by (auto simp: Table_read_def Let_def split: sum.splits if_splits prod.splits)
qed

theorem Table_absent_witness:
  "Table_write Table ''Coverage'' (\<lambda>t w. Inl AssertionError) newWriter (None :: unit option) None
     = Inr (writeData newWriter [0, 0])
   \<and> Table_write LTable ''Coverage'' (\<lambda>t w. Inl AssertionError) newWriter (None :: unit option) None
     = Inr (writeData newWriter [0, 0, 0, 0])
   \<and> Table_read Table False (\<lambda>r. Inl AssertionError :: error + unit)
        \<lparr>data = [0, 0], offset = 0, pos = 0\<rparr>
     = Inr (None, \<lparr>data = [0, 0], offset = 0, pos = 2\<rparr>)
   \<and> Table_read LTable False (\<lambda>r. Inl AssertionError :: error + unit)
        \<lparr>data = [0, 0, 0, 0], offset = 0, pos = 0\<rparr>
     = Inr (None, \<lparr>data = [0, 0, 0, 0], offset = 0, pos = 4\<rparr>)"
proof -
  note t2 = Table_absent [of Table "''Coverage''" "\<lambda>t w. Inl AssertionError" newWriter None
      "\<lparr>data = [0, 0], offset = 0, pos = 0\<rparr>" False "\<lambda>r. Inl AssertionError :: error + unit"]
  note t4 = Table_absent [of LTable "''Coverage''" "\<lambda>t w. Inl AssertionError" newWriter None
      "\<lparr>data = [0, 0, 0, 0], offset = 0, pos = 0\<rparr>" False
      "\<lambda>r. Inl AssertionError :: error + unit"]
  have r2: "replicate 2 (0::byte) = [0, 0]"
    and r4: "replicate 4 (0::byte) = [0, 0, 0, 0]"
    by (simp_all add: numeral_eq_Suc)
  have c1: "Table_write Table ''Coverage'' (\<lambda>t w. Inl AssertionError) newWriter
       (None :: unit option) None = Inr (writeData newWriter [0, 0])"
    using t2 [THEN conjunct1] by (simp add: r2)
  have c2: "Table_write LTable ''Coverage'' (\<lambda>t w. Inl AssertionError) newWriter
       (None :: unit option) None = Inr (writeData newWriter [0, 0, 0, 0])"
    using t4 [THEN conjunct1] by (simp add: r4)
  have c3: "Table_read Table False (\<lambda>r. Inl AssertionError :: error + unit)
        \<lparr>data = [0, 0], offset = 0, pos = 0\<rparr>
     = Inr (None, \<lparr>data = [0, 0], offset = 0, pos = 2\<rparr>)"
    using t2 [THEN conjunct2, THEN conjunct1] by (simp add: r2)
  have c4: "Table_read LTable False (\<lambda>r. Inl AssertionError :: error + unit)
        \<lparr>data = [0, 0, 0, 0], offset = 0, pos = 0\<rparr>
     = Inr (None, \<lparr>data = [0, 0, 0, 0], offset = 0, pos = 4\<rparr>)"
    using t4 [THEN conjunct2, THEN conjunct1] by (simp add: r4)
  show ?thesis using c1 c2 c3 c4 by (intro conjI)
qed

section \<open>StructWithLength: the length field is backpatched with the measured size\<close>

lemma deadbeef_sentinel:
  assumes "n = 1 \<or> n = 2 \<or> n = 4"
  shows "\<exists>d. deadbeef_of (Some n) = Inr d \<and> 0 \<le> d \<and> d < 2 ^ (8 * n)
     \<and> be_bytes n d = take n deadbeef_bytes"
proof -
  have "be_bytes 1 0xDE = take 1 deadbeef_bytes"
    and "be_bytes 2 0xDEAD = take 2 deadbeef_bytes"
    and "be_bytes 4 0xDEADBEEF = take 4 deadbeef_bytes"
    by code_simp+
  with assms show ?thesis
    by (auto simp: deadbeef_of_def)
qed

text \<open>
  C6. Let \<^verbatim>\<open>conv\<close> be the \<^verbatim>\<open>StructLength\<close> converter the loop stops at, an unsigned
  integer field of \<open>n\<close> = 1, 2 or 4 bytes, and let \<^verbatim>\<open>compile\<close> append the items
  \<open>new\<close> to the writer, \<open>N\<close> bytes in all (the struct's true compiled size), the item
  at the length field's index being \<open>new ! k\<close>. The placeholder the converter writes
  for the reserved value is the first \<open>n\<close> bytes of DE AD BE EF. If the item at the
  length field's index is that placeholder and \<open>N\<close> fits \<open>n\<close> bytes, the write
  succeeds: the writer holds the compiled items with exactly that item replaced by
  the \<open>n\<close>-byte big-endian encoding of \<open>N\<close>, so the stored length is \<open>N\<close> and the
  struct's size is unchanged by the patch. If the item at that index is anything else,
  the write raises an assertion error. (A size that does not fit the field is refused
  by the length converter's own write.)
\<close>

theorem StructWithLength_backpatch:
  assumes conv: "find_StructLength (getConverters ops v) 0 None = Some (i, conv)"
    and size: "conv_staticSize conv = Some n" "n = 1 \<or> n = 2 \<or> n = 4"
    and cw: "conv_write conv = writeUnsigned n"
    and dead: "deadbeef_of (Some n) = Inr d"
    and comp: "table_compile ops (setStructLength ops d v) w = Inr w'"
    and app: "items w' = items w @ new"
    and k: "k = i + (if isFormatSwitching ops v then 1 else 0)" "k < length new"
    and N: "N = sum_list (map item_length new)"
  shows "conv_write conv w0 d = Inr (writeData w0 (take n deadbeef_bytes))
    \<and> (new ! k = Data (take n deadbeef_bytes) \<and> int N < 2 ^ (8 * n) \<longrightarrow>
         StructWithLength_write ops w v
           = Inr (set_items (items w @ new[k := Data (be_bytes n (int N))]) w')
         \<and> be_int (be_bytes n (int N)) = int N
         \<and> sum_list (map item_length (new[k := Data (be_bytes n (int N))])) = N)
    \<and> (new ! k \<noteq> Data (take n deadbeef_bytes) \<and> int N < 2 ^ (8 * n) \<longrightarrow>
         StructWithLength_write ops w v = Inl AssertionError)
    \<and> (\<not> int N < 2 ^ (8 * n) \<longrightarrow> StructWithLength_write ops w v = Inl StructError)"
proof -
  obtain d' where d': "deadbeef_of (Some n) = Inr d'" "0 \<le> d'" "d' < 2 ^ (8 * n)"
      "be_bytes n d' = take n deadbeef_bytes"
    using deadbeef_sentinel [OF size(2)] by blast
  with dead have d: "0 \<le> d" "d < 2 ^ (8 * n)" "be_bytes n d = take n deadbeef_bytes"
    by simp_all
  have len: "int (getDataLength w') - int (getDataLength w) = int N"
    using getDataLength_append [OF app] N by simp
  have pre: "StructWithLength_write ops w v =
     (case writeUnsigned n (getSubWriter w') (int N) of
        Inl e \<Rightarrow> Inl e
      | Inr lengthWriter' \<Rightarrow>
          if new ! k \<noteq> Data (take n deadbeef_bytes) then Inl AssertionError
          else Inr (set_items (items w @ new[k := Data (getAllData lengthWriter')]) w'))"
  proof (cases "isFormatSwitching ops v")
    case True
    then have ki: "k = Suc i" using k(1) by simp
    have "Suc (length (items w) + i) < length (items w')"
      and "items w' ! Suc (length (items w) + i) = new ! k"
      and "(items w')[Suc (length (items w) + i) := x] = items w @ new[k := x]" for x
      using app k(2) ki by (simp_all add: nth_append list_update_append)
    then show ?thesis
      unfolding StructWithLength_write_def
      using conv size(1) cw dead comp len True
      by (simp add: Let_def split: sum.splits)
  next
    case False
    then have ki: "k = i" using k(1) by simp
    have "length (items w) + i < length (items w')"
      and "items w' ! (length (items w) + i) = new ! k"
      and "(items w')[length (items w) + i := x] = items w @ new[k := x]" for x
      using app k(2) ki by (simp_all add: nth_append list_update_append)
    then show ?thesis
      unfolding StructWithLength_write_def
      using conv size(1) cw dead comp len False
      by (simp add: Let_def split: sum.splits)
  qed
  have c1: "conv_write conv w0 d = Inr (writeData w0 (take n deadbeef_bytes))"
    using cw d by (simp add: writeUnsigned_ok)
  have c2: "StructWithLength_write ops w v
           = Inr (set_items (items w @ new[k := Data (be_bytes n (int N))]) w')
         \<and> be_int (be_bytes n (int N)) = int N
         \<and> sum_list (map item_length (new[k := Data (be_bytes n (int N))])) = N"
    if a: "new ! k = Data (take n deadbeef_bytes) \<and> int N < 2 ^ (8 * n)"
  proof -
    have w: "writeUnsigned n (getSubWriter w') (int N)
        = Inr (writeData (getSubWriter w') (be_bytes n (int N)))"
      using a by (simp add: writeUnsigned_ok)
    have g: "getAllData (writeData (getSubWriter w') (be_bytes n (int N))) = be_bytes n (int N)"
      by (simp add: getAllData_def)
    have "item_length (new ! k) = n"
      using a size(2) by (auto simp: deadbeef_bytes_def)
    then have s: "sum_list (map item_length (new[k := Data (be_bytes n (int N))])) = N"
      using k(2) N by (simp add: map_update sum_list_update)
    show ?thesis
      using a w g s by (simp add: pre be_int_be_bytes_unsigned)
  qed
  have c3: "StructWithLength_write ops w v = Inl AssertionError"
    if a: "new ! k \<noteq> Data (take n deadbeef_bytes) \<and> int N < 2 ^ (8 * n)"
    using a by (simp add: pre writeUnsigned_ok)
  have c4: "StructWithLength_write ops w v = Inl StructError" if a: "\<not> int N < 2 ^ (8 * n)"
    using a by (simp add: pre writeUnsigned_def)
  show ?thesis
    using c1 c2 c3 c4 by blast
qed

theorem StructWithLength_backpatch_witness:
  "StructWithLength_write scalarTable_ops newWriter
     \<lparr>st_Format = None,
      st_fields = [(ComputedULong ''Flags'', 1), (ComputedULong ''StructLength'', 0),
                   (ComputedUShort ''Count'', 3)]\<rparr>
   = Inr (set_items [Data [0, 0, 0, 1], Data [0, 0, 0, 10], Data [0, 3]] newWriter)"
proof -
  define T where "T = \<lparr>st_Format = None,
      st_fields = [(ComputedULong ''Flags'', 1), (ComputedULong ''StructLength'', 0),
                   (ComputedUShort ''Count'', 3)]\<rparr>"
  define new where "new = [Data [0, 0, 0, 1], Data (take 4 deadbeef_bytes), Data [0, 3]]"
  define w' where "w' = set_items new newWriter"
  have b1: "be_bytes 4 1 = [0, 0, 0, 1]" and b2: "be_bytes 4 0xDEADBEEF = take 4 deadbeef_bytes"
    and b3: "be_bytes 2 3 = [0, 3]" and b4: "be_bytes 4 10 = [0, 0, 0, 10]"
    by code_simp+
  have h1: "find_StructLength (getConverters scalarTable_ops T) 0 None
      = Some (1, ComputedULong ''StructLength'')"
    by (simp add: scalarTable_ops_def T_def ComputedULong_def ComputedUShort_def)
  have h2: "conv_staticSize (ComputedULong ''StructLength'') = Some 4"
    and h3: "conv_write (ComputedULong ''StructLength'') = writeUnsigned 4"
    by (simp_all add: ComputedULong_def writeULong_def)
  have h4: "deadbeef_of (Some 4) = Inr 0xDEADBEEF"
    by (simp add: deadbeef_of_def)
  have h5: "table_compile scalarTable_ops (setStructLength scalarTable_ops 0xDEADBEEF T) newWriter
      = Inr w'"
    by (simp add: scalarTable_ops_def T_def scalarTable_compile_def ComputedULong_def
        ComputedUShort_def writeULong_def writeUShort_def writeUnsigned_def b1 b2 b3
        w'_def new_def writeData_def append_item_def set_items_def newWriter_def)
  have h6: "items w' = items newWriter @ new"
    by (simp add: w'_def newWriter_def)
  have h7: "(1::nat) = 1 + (if isFormatSwitching scalarTable_ops T then 1 else 0)"
    by (simp add: scalarTable_ops_def T_def)
  have h8: "(1::nat) < length new" and h9: "(10::nat) = sum_list (map item_length new)"
    by (simp_all add: new_def deadbeef_bytes_def)
  have h10: "new ! 1 = Data (take 4 deadbeef_bytes) \<and> int 10 < 2 ^ (8 * 4)"
    by (simp add: new_def)
  have "StructWithLength_write scalarTable_ops newWriter T
      = Inr (set_items (items newWriter @ new[1 := Data (be_bytes 4 (int 10))]) w')"
    using StructWithLength_backpatch [OF h1 h2 _ h3 h4 h5 h6 h7 h8 h9] h10 by blast
  then show ?thesis
    unfolding T_def [symmetric]
    by (simp add: b4 new_def w'_def newWriter_def set_items_def)
qed

section \<open>Arrays: the lazy list agrees with the eager decode\<close>

lemma read_eager_elems:
  assumes fixed: "\<And>r v r'. rd r = Inr (v, r') \<Longrightarrow> r' = r\<lparr>pos := pos r + int rs\<rparr>"
    and "read_eager rd n r = Inr (xs, r')"
  shows "length xs = n \<and> r' = r\<lparr>pos := pos r + int (n * rs)\<rparr>
     \<and> (\<forall>i<n. rd (r\<lparr>pos := pos r + int (i * rs)\<rparr>)
            = Inr (xs ! i, r\<lparr>pos := pos r + int (Suc i * rs)\<rparr>))"
  using assms(2)
proof (induction n arbitrary: r xs r')
  case 0
  then show ?case by simp
next
  case (Suc n)
  from Suc.prems obtain v r1 l where v: "rd r = Inr (v, r1)"
    and l: "read_eager rd n r1 = Inr (l, r')" and xs: "xs = v # l"
    by (auto split: sum.splits)
  have r1: "r1 = r\<lparr>pos := pos r + int rs\<rparr>"
    by (rule fixed [OF v])
  note ih = Suc.IH [OF l]
  have nth: "rd (r\<lparr>pos := pos r + int (i * rs)\<rparr>)
            = Inr (xs ! i, r\<lparr>pos := pos r + int (Suc i * rs)\<rparr>)" if "i < Suc n" for i
  proof (cases i)
    case 0
    then show ?thesis using v r1 xs by simp
  next
    case (Suc m)
    then have "m < n" using that by simp
    with ih have "rd (r1\<lparr>pos := pos r1 + int (m * rs)\<rparr>)
            = Inr (l ! m, r1\<lparr>pos := pos r1 + int (Suc m * rs)\<rparr>)"
      by blast
    then show ?thesis
      using Suc xs r1 by (simp add: algebra_simps)
  qed
  have a: "length xs = Suc n"
    using ih xs by simp
  have "r' = r1\<lparr>pos := pos r1 + int (n * rs)\<rparr>"
    using ih by blast
  then have b: "r' = r\<lparr>pos := pos r + int (Suc n * rs)\<rparr>"
    unfolding r1 by (simp add: algebra_simps)
  show ?case
    using a b nth by blast
qed

lemma reader_same_buffer:
  fixes r r0 :: reader
  shows "data r = data r0 \<Longrightarrow> offset r = offset r0 \<Longrightarrow> r\<lparr>pos := p\<rparr> = r0\<lparr>pos := p\<rparr>"
  by (cases r, cases r0) simp

text \<open>One access: the element of the eager decode, memoized in its slot.\<close>

lemma LazyList_getitem_repr:
  assumes repr: "lazy_repr xs reader0 rs cr l"
    and el: "\<forall>i<length xs. cr Map.empty (reader0\<lparr>pos := pos reader0 + int (i * rs)\<rparr>)
              = Inr (xs ! i, reader0\<lparr>pos := pos reader0 + int (Suc i * rs)\<rparr>)"
    and j: "j < length xs"
    and k: "k = int j \<or> k = int j - int (length xs)"
  shows "\<exists>l'. LazyList_getitem l k = Inr (xs ! j, l') \<and> lazy_repr xs reader0 rs cr l'
     \<and> ldata l' ! j = Item (xs ! j)"
proof -
  have len: "length (ldata l) = length xs"
    using repr by (simp add: lazy_repr_def)
  have idx: "(if k < 0 then k + int (length (ldata l)) else k) = int j"
    using k j len by auto
  have slot: "ldata l ! j = MissingItem j \<or> ldata l ! j = Item (xs ! j)"
    using repr j by (simp add: lazy_repr_def)
  then show ?thesis
  proof
    assume m: "ldata l ! j = MissingItem j"
    have "(lreader l)\<lparr>pos := pos reader0 + int (j * rs)\<rparr>
        = reader0\<lparr>pos := pos reader0 + int (j * rs)\<rparr>"
      by (rule reader_same_buffer) (use repr in \<open>simp_all add: lazy_repr_def\<close>)
    moreover have "lpos l + int j * int (recordSize l) = pos reader0 + int (j * rs)"
      using repr by (simp add: lazy_repr_def)
    ultimately have sk: "seek (lpos l + int j * int (recordSize l)) (lreader l)
        = reader0\<lparr>pos := pos reader0 + int (j * rs)\<rparr>"
      by (simp only: seek_def)
    define l' where "l' = l\<lparr>ldata := (ldata l)[j := Item (xs ! j)],
        lreader := reader0\<lparr>pos := pos reader0 + int (Suc j * rs)\<rparr>\<rparr>"
    have cr: "lconv l = cr" using repr by (simp add: lazy_repr_def)
    have g: "LazyList_getitem l k = Inr (xs ! j, l')"
      unfolding LazyList_getitem_def Let_def idx
      using j len m el sk cr by (simp add: l'_def)
    have r: "lazy_repr xs reader0 rs cr l'"
      using repr j by (auto simp: lazy_repr_def l'_def nth_list_update)
    have "ldata l' ! j = Item (xs ! j)"
      using j len by (simp add: l'_def)
    with g r show ?thesis by blast
  next
    assume m: "ldata l ! j = Item (xs ! j)"
    have "LazyList_getitem l k = Inr (xs ! j, l)"
      unfolding LazyList_getitem_def Let_def idx
      using j len m by simp
    with repr m show ?thesis by blast
  qed
qed

lemma LazyList_getitems_repr:
  assumes "lazy_repr xs reader0 rs cr l"
    and el: "\<forall>i<length xs. cr Map.empty (reader0\<lparr>pos := pos reader0 + int (i * rs)\<rparr>)
              = Inr (xs ! i, reader0\<lparr>pos := pos reader0 + int (Suc i * rs)\<rparr>)"
    and "\<forall>k\<in>set ks. 0 \<le> k \<and> k < int (length xs)"
  shows "\<exists>l'. LazyList_getitems l ks = Inr (map (\<lambda>k. xs ! nat k) ks, l')
     \<and> lazy_repr xs reader0 rs cr l'"
  using assms(1,3)
proof (induction ks arbitrary: l)
  case Nil
  then show ?case by simp
next
  case (Cons k ks)
  have "nat k < length xs" "k = int (nat k) \<or> k = int (nat k) - int (length xs)"
    using Cons.prems(2) by auto
  from LazyList_getitem_repr [OF Cons.prems(1) el this]
  obtain l1 where l1: "LazyList_getitem l k = Inr (xs ! nat k, l1)"
    "lazy_repr xs reader0 rs cr l1"
    by blast
  have rest: "\<forall>k\<in>set ks. 0 \<le> k \<and> k < int (length xs)"
    using Cons.prems(2) by simp
  from Cons.IH [OF l1(2) rest]
  obtain l2 where "LazyList_getitems l1 ks = Inr (map (\<lambda>k. xs ! nat k) ks, l2)"
    "lazy_repr xs reader0 rs cr l2"
    by blast
  with l1(1) show ?case by simp
qed

lemma slice_indices_range: "\<forall>k\<in>set (slice_indices n i j). 0 \<le> k \<and> k < int n"
proof -
  have "slice_bound n x \<le> n" for x
    by (auto simp: slice_bound_def max_def)
  then have "(case j of None \<Rightarrow> n | Some x \<Rightarrow> slice_bound n x) \<le> n"
    by (cases j) simp_all
  then show ?thesis
    by (auto simp: slice_indices_def)
qed

text \<open>
  C7. Let the element converter have a fixed record size \<open>rs\<close>: a successful
  \<^verbatim>\<open>read\<close> moves the cursor by \<open>rs\<close> bytes and changes nothing else, and does not
  look at \<^verbatim>\<open>tableDict\<close> (the lazy path passes an empty one). Let the array be
  eligible for lazy decoding: more than 8 elements and \<^verbatim>\<open>getRecordSize\<close> returning
  \<open>rs\<close>. Let \<open>xs\<close> be what the eager path (the font not lazy) decodes from the same
  bytes. Then with a lazy font \<^verbatim>\<open>readArray\<close> returns a lazy list at once, the outer
  cursor moved by \<open>n * rs\<close> bytes, where the eager path leaves it; indexing the
  positions 0 to \<open>n - 1\<close> in turn yields \<open>xs\<close>; indexing any one position \<open>k\<close> yields
  \<open>xs ! k\<close> and leaves it in its slot, from where a later access returns it whatever
  the converter is (it is not decoded again); and any slice yields the elements of
  \<open>xs\<close> at the indices of the slice, after which indexing still yields \<open>xs\<close>.
\<close>

theorem lazy_array_equals_eager:
  assumes fixed: "\<forall>td r v r'. conv_read td r = Inr (v, r') \<longrightarrow> r' = r\<lparr>pos := pos r + int rs\<rparr>"
    and indep: "\<forall>td r. conv_read td r = conv_read Map.empty r"
    and big: "8 < n"
    and rsz: "getRecordSize reader = Some rs"
    and eager: "readArray conv_read getRecordSize False tableDict reader n
                  = Inr (PyList xs, reader_e)"
  shows "\<exists>l. readArray conv_read getRecordSize True tableDict reader n
               = Inr (Lazy l, reader\<lparr>pos := pos reader + n * int rs\<rparr>)
      \<and> reader_e = reader\<lparr>pos := pos reader + n * int rs\<rparr>
      \<and> int (length xs) = n
      \<and> (\<exists>l'. LazyList_getitems l (map int [0..<nat n]) = Inr (xs, l'))
      \<and> (\<forall>k. 0 \<le> k \<and> k < n \<longrightarrow>
            (\<exists>l'. LazyList_getitem l k = Inr (xs ! nat k, l')
                \<and> ldata l' ! nat k = Item (xs ! nat k)
                \<and> (\<forall>f. LazyList_getitem (l'\<lparr>lconv := f\<rparr>) k
                          = Inr (xs ! nat k, l'\<lparr>lconv := f\<rparr>))))
      \<and> (\<forall>i j. \<exists>l'. LazyList_getslice l i j
                        = Inr (map (\<lambda>k. xs ! nat k) (slice_indices (nat n) i j), l')
            \<and> (\<exists>l''. LazyList_getitems l' (map int [0..<nat n]) = Inr (xs, l''))
            \<and> (\<forall>k. 0 \<le> k \<and> k < n \<longrightarrow>
                  (\<exists>l''. LazyList_getitem l' k = Inr (xs ! nat k, l''))))"
proof -
  define l0 where "l0 = \<lparr>ldata = map MissingItem [0..<nat n], lreader = reader,
      lpos = pos reader, recordSize = rs, lconv = conv_read\<rparr>"
  have e: "read_eager (conv_read tableDict) (nat n) reader = Inr (xs, reader_e)"
    using eager by (auto simp: readArray_def split: sum.splits)
  have fx: "\<And>r v r'. conv_read tableDict r = Inr (v, r') \<Longrightarrow> r' = r\<lparr>pos := pos r + int rs\<rparr>"
    using fixed by blast
  have el0: "length xs = nat n \<and> reader_e = reader\<lparr>pos := pos reader + int (nat n * rs)\<rparr>
     \<and> (\<forall>i<nat n. conv_read tableDict (reader\<lparr>pos := pos reader + int (i * rs)\<rparr>)
            = Inr (xs ! i, reader\<lparr>pos := pos reader + int (Suc i * rs)\<rparr>))"
    by (rule read_eager_elems [where rd = "conv_read tableDict" and rs = rs, OF _ e])
      (rule fx)
  have len: "length xs = nat n"
    using el0 by blast
  have n: "int (nat n) = n"
    using big by simp
  have re: "reader_e = reader\<lparr>pos := pos reader + n * int rs\<rparr>"
    using el0 n by (metis of_nat_mult)
  have el: "\<forall>i<length xs. conv_read Map.empty (reader\<lparr>pos := pos reader + int (i * rs)\<rparr>)
              = Inr (xs ! i, reader\<lparr>pos := pos reader + int (Suc i * rs)\<rparr>)"
    using el0 indep len by metis
  have lz: "readArray conv_read getRecordSize True tableDict reader n
               = Inr (Lazy l0, reader\<lparr>pos := pos reader + n * int rs\<rparr>)"
    using big rsz by (simp add: readArray_def l0_def advance_def)
  have repr: "lazy_repr xs reader rs conv_read l0"
    by (simp add: lazy_repr_def l0_def len)
  have all: "\<exists>l''. LazyList_getitems l' (map int [0..<nat n]) = Inr (xs, l'')"
    if r: "lazy_repr xs reader rs conv_read l'" for l'
  proof -
    have "\<forall>k\<in>set (map int [0..<nat n]). 0 \<le> k \<and> k < int (length xs)"
      by (auto simp: len)
    from LazyList_getitems_repr [OF r el this]
    obtain l'' where "LazyList_getitems l' (map int [0..<nat n])
        = Inr (map (\<lambda>k. xs ! nat k) (map int [0..<nat n]), l'')"
      by blast
    moreover have "map (\<lambda>k. xs ! nat k) (map int [0..<nat n]) = xs"
      using map_nth [of xs] by (simp add: comp_def len)
    ultimately show ?thesis by auto
  qed
  have one: "\<exists>l''. LazyList_getitem l' k = Inr (xs ! nat k, l'')
      \<and> lazy_repr xs reader rs conv_read l'' \<and> ldata l'' ! nat k = Item (xs ! nat k)"
    if r: "lazy_repr xs reader rs conv_read l'" and k: "0 \<le> k \<and> k < n" for l' k
  proof -
    have "nat k < length xs" "k = int (nat k) \<or> k = int (nat k) - int (length xs)"
      using k len by auto
    from LazyList_getitem_repr [OF r el this] show ?thesis .
  qed
  have memo: "LazyList_getitem (l'\<lparr>lconv := f\<rparr>) k = Inr (xs ! nat k, l'\<lparr>lconv := f\<rparr>)"
    if r: "lazy_repr xs reader rs conv_read l'" and s: "ldata l' ! nat k = Item (xs ! nat k)"
      and k: "0 \<le> k \<and> k < n" for l' k f
  proof -
    have "length (ldata l') = nat n"
      using r len by (simp add: lazy_repr_def)
    then show ?thesis
      using s k by (simp add: LazyList_getitem_def)
  qed
  have c5: "\<exists>l'. LazyList_getitem l0 k = Inr (xs ! nat k, l')
                \<and> ldata l' ! nat k = Item (xs ! nat k)
                \<and> (\<forall>f. LazyList_getitem (l'\<lparr>lconv := f\<rparr>) k
                          = Inr (xs ! nat k, l'\<lparr>lconv := f\<rparr>))"
    if k: "0 \<le> k \<and> k < n" for k
    using one [OF repr k] memo k by blast
  have c6: "\<exists>l'. LazyList_getslice l0 i j
                        = Inr (map (\<lambda>k. xs ! nat k) (slice_indices (nat n) i j), l')
            \<and> (\<exists>l''. LazyList_getitems l' (map int [0..<nat n]) = Inr (xs, l''))
            \<and> (\<forall>k. 0 \<le> k \<and> k < n \<longrightarrow>
                  (\<exists>l''. LazyList_getitem l' k = Inr (xs ! nat k, l'')))" for i j
  proof -
    have ln: "length (ldata l0) = nat n"
      by (simp add: l0_def)
    have "\<forall>k\<in>set (slice_indices (nat n) i j). 0 \<le> k \<and> k < int (length xs)"
      using slice_indices_range [of "nat n" i j] len by simp
    from LazyList_getitems_repr [OF repr el this]
    obtain l' where l': "LazyList_getitems l0 (slice_indices (nat n) i j)
        = Inr (map (\<lambda>k. xs ! nat k) (slice_indices (nat n) i j), l')"
      "lazy_repr xs reader rs conv_read l'"
      by blast
    have "LazyList_getslice l0 i j
        = Inr (map (\<lambda>k. xs ! nat k) (slice_indices (nat n) i j), l')"
      using l'(1) by (simp add: LazyList_getslice_def ln)
    then show ?thesis
      using all [OF l'(2)] one [OF l'(2)] by blast
  qed
  show ?thesis
    using lz re len n all [OF repr] c5 c6 by (intro exI [of _ l0]) simp
qed

theorem lazy_array_equals_eager_witness:
  "\<exists>l. readArray (\<lambda>td. readUShort) (BaseConverter_getRecordSize (Some 2)) True Map.empty
           \<lparr>data = [0, 1, 0, 2, 0, 3, 0, 4, 0, 5, 0, 6, 0, 7, 0, 8, 0, 9], offset = 0, pos = 0\<rparr> 9
         = Inr (Lazy l,
             \<lparr>data = [0, 1, 0, 2, 0, 3, 0, 4, 0, 5, 0, 6, 0, 7, 0, 8, 0, 9], offset = 0, pos = 18\<rparr>)
     \<and> (\<exists>l'. LazyList_getitems l (map int [0..<9]) = Inr ([1, 2, 3, 4, 5, 6, 7, 8, 9], l'))
     \<and> (\<exists>l'. LazyList_getitem l 4 = Inr (5, l'))
     \<and> (\<exists>l' l''. LazyList_getslice l (Some 2) (Some 5) = Inr ([3, 4, 5], l')
            \<and> LazyList_getitem l' 8 = Inr (9, l''))"
proof -
  define R where "R = \<lparr>data = [0, 1, 0, 2, 0, 3, 0, 4, 0, 5, 0, 6, 0, 7, 0, 8, 0, 9 :: byte],
      offset = 0 :: int, pos = 0 :: int\<rparr>"
  define xs :: "int list" where "xs = [1, 2, 3, 4, 5, 6, 7, 8, 9]"
  have h1: "\<forall>td r v r'. (\<lambda>td. readUShort) td r = Inr (v, r') \<longrightarrow> r' = r\<lparr>pos := pos r + int 2\<rparr>"
    by (auto simp: readUShort_def dest: readUnsigned_Inr)
  have h2: "\<forall>td r. (\<lambda>td. readUShort) td r = (\<lambda>td. readUShort) Map.empty r"
    by simp
  have h3: "(8::int) < 9"
    by simp
  have h4: "BaseConverter_getRecordSize (Some 2) R = Some 2"
    by (simp add: BaseConverter_getRecordSize_def)
  have "read_eager readUShort 9 R = Inr (xs, R\<lparr>pos := 18\<rparr>)"
    unfolding R_def xs_def by code_simp
  then have h5: "readArray (\<lambda>td. readUShort) (BaseConverter_getRecordSize (Some 2)) False
      Map.empty R 9 = Inr (PyList xs, R\<lparr>pos := 18\<rparr>)"
    by (simp add: readArray_def)
  from lazy_array_equals_eager [OF h1 h2 h3 h4 h5]
  obtain l where l: "readArray (\<lambda>td. readUShort) (BaseConverter_getRecordSize (Some 2)) True
        Map.empty R 9 = Inr (Lazy l, R\<lparr>pos := pos R + 9 * int 2\<rparr>)"
    and a: "\<exists>l'. LazyList_getitems l (map int [0..<nat 9]) = Inr (xs, l')"
    and b: "\<And>k. 0 \<le> k \<and> k < 9 \<Longrightarrow> \<exists>l'. LazyList_getitem l k = Inr (xs ! nat k, l')"
    and c: "\<And>i j. \<exists>l'. LazyList_getslice l i j
                        = Inr (map (\<lambda>k. xs ! nat k) (slice_indices (nat 9) i j), l')
            \<and> (\<forall>k. 0 \<le> k \<and> k < 9 \<longrightarrow>
                  (\<exists>l''. LazyList_getitem l' k = Inr (xs ! nat k, l'')))"
    by blast
  have s: "map (\<lambda>k. xs ! nat k) (slice_indices (nat 9) (Some 2) (Some 5)) = [3, 4, 5]"
    unfolding xs_def by code_simp
  have x4: "xs ! nat 4 = 5" and x8: "xs ! nat 8 = 9"
    unfolding xs_def by code_simp+
  from c [of "Some 2" "Some 5"] obtain l' where l': "LazyList_getslice l (Some 2) (Some 5)
        = Inr ([3, 4, 5], l')"
    and k': "\<forall>k. 0 \<le> k \<and> k < 9 \<longrightarrow> (\<exists>l''. LazyList_getitem l' k = Inr (xs ! nat k, l''))"
    unfolding s by blast
  have "(0::int) \<le> 8 \<and> (8::int) < 9" by simp
  with k' have "\<exists>l''. LazyList_getitem l' 8 = Inr (xs ! nat 8, l'')"
    by blast
  with l' have c': "\<exists>l' l''. LazyList_getslice l (Some 2) (Some 5) = Inr ([3, 4, 5], l')
            \<and> LazyList_getitem l' 8 = Inr (9, l'')"
    unfolding x8 by blast
  have b': "\<exists>l'. LazyList_getitem l 4 = Inr (5, l')"
    using b [of 4] unfolding x4 by simp
  have a': "\<exists>l'. LazyList_getitems l (map int [0..<9]) = Inr ([1, 2, 3, 4, 5, 6, 7, 8, 9], l')"
    using a by (simp add: xs_def)
  have l'': "readArray (\<lambda>td. readUShort) (BaseConverter_getRecordSize (Some 2)) True Map.empty
           \<lparr>data = [0, 1, 0, 2, 0, 3, 0, 4, 0, 5, 0, 6, 0, 7, 0, 8, 0, 9], offset = 0, pos = 0\<rparr> 9
         = Inr (Lazy l,
             \<lparr>data = [0, 1, 0, 2, 0, 3, 0, 4, 0, 5, 0, 6, 0, 7, 0, 8, 0, 9], offset = 0, pos = 18\<rparr>)"
    using l by (simp add: R_def)
  show ?thesis
    using l'' a' b' c' by blast
qed

section \<open>DeltaValue: reading back what was written\<close>

text \<open>Sign extension of an \<open>n\<close>-bit field, as \<^verbatim>\<open>read\<close> does it.\<close>

lemma sign_extend:
  fixes v :: int
  assumes "0 < n" and "- (2 ^ (n - 1)) \<le> v" and "v < 2 ^ (n - 1)"
  shows "(if take_bit n v AND push_bit (n - 1) 1 \<noteq> 0
          then take_bit n v - push_bit n 1 else take_bit n v) = v"
proof -
  define P :: int where "P = 2 ^ (n - 1)"
  have P: "0 < P" by (simp add: P_def)
  have n2: "(2::int) ^ n = 2 * P"
    using assms(1) by (simp add: P_def power_eq_if)
  have bit: "take_bit n v AND push_bit (n - 1) 1 \<noteq> 0 \<longleftrightarrow> odd (take_bit n v div P)"
    by (simp add: push_bit_eq_mult P_def and_exp_eq_0_iff_not_bit bit_iff_odd)
  show ?thesis
  proof (cases "0 \<le> v")
    case True
    have "v < 2 ^ n"
      using assms(3) P unfolding n2 P_def [symmetric] by linarith
    with True have m: "take_bit n v = v"
      by (rule take_bit_int_eq_self)
    have "v div P = 0"
      using True assms(3) by (simp add: P_def)
    then show ?thesis
      using m bit by simp
  next
    case False
    have "take_bit n v = v mod (2 * P)"
      by (simp add: take_bit_eq_mod n2)
    also have "\<dots> = (v + 2 * P) mod (2 * P)"
      by simp
    also have "\<dots> = v + 2 * P"
      using False assms(2) P by (intro mod_pos_pos_trivial) (simp_all add: P_def)
    finally have m: "take_bit n v = v + 2 * P" .
    have "(v + 2 * P) div P = 1"
      using False assms(2) P by (intro int_div_pos_eq [where r = "v + P"]) (simp_all add: P_def)
    then show ?thesis
      using m bit by (simp add: push_bit_eq_mult n2)
  qed
qed

lemma bits_below_16:
  fixes x :: int
  assumes "\<forall>i. bit x i \<longrightarrow> i < 16"
  shows "0 \<le> x \<and> x < 65536"
proof -
  have "take_bit 16 x = x"
    by (rule bit_eqI) (use assms in \<open>auto simp: bit_take_bit_iff\<close>)
  then show ?thesis
    using take_bit_int_eq_self_iff [of 16 x] by simp
qed

lemma delta_step_bits:
  "bit (tmp OR push_bit s (take_bit nBits v) :: int) i
     \<longleftrightarrow> bit tmp i \<or> (s \<le> i \<and> i - s < nBits \<and> bit v (i - s))"
  by (auto simp: bit_or_iff bit_push_bit_iff bit_take_bit_iff)

lemma delta_inv_step:
  assumes inv: "delta_inv nBits tmp shift"
  shows "nBits \<le> shift"
    and "\<forall>i. bit (tmp OR push_bit (shift - nBits) (take_bit nBits v)) i
           \<longrightarrow> shift - nBits \<le> i \<and> i < 16"
    and "shift - nBits \<noteq> 0 \<Longrightarrow>
           delta_inv nBits (tmp OR push_bit (shift - nBits) (take_bit nBits v)) (shift - nBits)"
    and "delta_inv nBits 0 16"
proof -
  show le: "nBits \<le> shift"
    using inv by (auto simp: delta_inv_def dest: dvd_imp_le)
  show bits: "\<forall>i. bit (tmp OR push_bit (shift - nBits) (take_bit nBits v)) i
           \<longrightarrow> shift - nBits \<le> i \<and> i < 16"
  proof (intro allI impI)
    fix i assume "bit (tmp OR push_bit (shift - nBits) (take_bit nBits v)) i"
    then consider "bit tmp i" | "shift - nBits \<le> i" "i - (shift - nBits) < nBits"
      by (auto simp: delta_step_bits)
    then show "shift - nBits \<le> i \<and> i < 16"
    proof cases
      case 1
      then show ?thesis using inv by (auto simp: delta_inv_def)
    next
      case 2
      then show ?thesis using inv le by (auto simp: delta_inv_def)
    qed
  qed
  show "delta_inv nBits (tmp OR push_bit (shift - nBits) (take_bit nBits v)) (shift - nBits)"
    if "shift - nBits \<noteq> 0"
    using that inv bits le by (auto simp: delta_inv_def)
  show "delta_inv nBits 0 16"
    using inv by (simp add: delta_inv_def)
qed

lemma delta_inv_range:
  assumes "delta_inv nBits tmp shift"
  shows "0 \<le> tmp \<and> tmp < 65536"
    and "0 \<le> tmp OR push_bit (shift - nBits) (take_bit nBits v)
         \<and> tmp OR push_bit (shift - nBits) (take_bit nBits v) < 65536"
proof -
  show "0 \<le> tmp \<and> tmp < 65536"
    using assms by (intro bits_below_16) (simp add: delta_inv_def)
  show "0 \<le> tmp OR push_bit (shift - nBits) (take_bit nBits v)
         \<and> tmp OR push_bit (shift - nBits) (take_bit nBits v) < 65536"
    using delta_inv_step(2) [OF assms] by (intro bits_below_16) blast
qed

lemma write_words_Nil: "write_words w [] = w"
  by (cases w) (simp add: write_words_def set_items_def)

lemma write_words_Cons:
  "write_words (writeData w (be_bytes 2 x)) ws = write_words w (x # ws)"
  by (cases w) (simp add: write_words_def set_items_def writeData_def append_item_def)

lemma writeUShort_ok:
  "0 \<le> x \<and> x < 65536 \<Longrightarrow> writeUShort w x = Inr (writeData w (be_bytes 2 x))"
  by (simp add: writeUShort_def writeUnsigned_def)

text \<open>The loop of \<^verbatim>\<open>write\<close> and its last, partial word emit \<open>delta_words\<close>.\<close>

lemma DeltaValue_write_loop_words:
  assumes "delta_inv nBits tmp shift"
  shows "(case DeltaValue_write_loop nBits (push_bit nBits 1 - 1) vs tmp shift w of
            Inl e \<Rightarrow> Inl e
          | Inr (tmp', shift', w') \<Rightarrow>
              if shift' \<noteq> 16 then writeUShort w' tmp' else Inr w')
         = Inr (write_words w (delta_words nBits vs tmp shift))"
  using assms
proof (induction vs arbitrary: tmp shift w)
  case Nil
  then show ?case
    using delta_inv_range(1) [OF Nil]
    by (simp add: writeUShort_ok write_words_Nil flip: write_words_Cons)
next
  case (Cons v vs)
  let ?tmp' = "tmp OR push_bit (shift - nBits) (take_bit nBits v)"
  show ?case
  proof (cases "shift - nBits = 0")
    case True
    have w: "writeUShort w ?tmp' = Inr (writeData w (be_bytes 2 ?tmp'))"
      using delta_inv_range(2) [OF Cons.prems] by (rule writeUShort_ok)
    show ?thesis
      using True w Cons.IH [OF delta_inv_step(4) [OF Cons.prems]]
      by (simp add: and_exp_minus_1 Let_def write_words_Cons)
  next
    case False
    show ?thesis
      using False Cons.IH [OF delta_inv_step(3) [OF Cons.prems False]]
      by (simp add: and_exp_minus_1 Let_def)
  qed
qed

text \<open>The word being filled: once complete, it agrees with \<open>tmp\<close> on the bits
  already written.\<close>

lemma delta_words_head:
  assumes "delta_inv nBits tmp shift" and "shift < 16"
  shows "\<exists>x ws'. delta_words nBits vs tmp shift = x # ws' \<and> (\<forall>i\<ge>shift. bit x i = bit tmp i)"
  using assms
proof (induction vs arbitrary: tmp shift)
  case Nil
  then show ?case by simp
next
  case (Cons v vs)
  let ?s = "shift - nBits"
  let ?tmp' = "tmp OR push_bit ?s (take_bit nBits v)"
  have le: "nBits \<le> shift"
    by (rule delta_inv_step(1) [OF Cons.prems(1)])
  have keep: "\<forall>i\<ge>shift. bit ?tmp' i = bit tmp i"
    using le by (auto simp: delta_step_bits)
  show ?case
  proof (cases "?s = 0")
    case True
    then show ?thesis using keep by (simp add: Let_def)
  next
    case False
    have "?s < 16" using Cons.prems(2) by simp
    from Cons.IH [OF delta_inv_step(3) [OF Cons.prems(1) False] this]
    obtain x ws' where x: "delta_words nBits vs ?tmp' ?s = x # ws'"
      "\<forall>i\<ge>?s. bit x i = bit ?tmp' i"
      by blast
    have "\<forall>i\<ge>shift. bit x i = bit tmp i"
      using x(2) keep by (metis diff_le_self order_trans)
    then show ?thesis
      using False x(1) by (simp add: Let_def)
  qed
qed

lemma delta_words_step:
  assumes inv: "delta_inv nBits tmp shift"
  shows "\<exists>x ws'. delta_words nBits (v # vs) tmp shift = x # ws'
     \<and> (\<forall>i\<ge>shift - nBits. bit x i
           = bit (tmp OR push_bit (shift - nBits) (take_bit nBits v)) i)
     \<and> (if shift - nBits = 0 then ws' = delta_words nBits vs 0 16
         else x # ws' = delta_words nBits vs
                (tmp OR push_bit (shift - nBits) (take_bit nBits v)) (shift - nBits))"
proof (cases "shift - nBits = 0")
  case True
  then show ?thesis by (simp add: Let_def)
next
  case False
  have "shift - nBits < 16"
    using inv delta_inv_step(1) [OF inv] by (auto simp: delta_inv_def)
  from delta_words_head [OF delta_inv_step(3) [OF inv False] this, of vs v]
  show ?thesis using False by (auto simp: Let_def)
qed

text \<open>The field \<^verbatim>\<open>read\<close> extracts from the completed word is the one \<^verbatim>\<open>write\<close>
  put there.\<close>

lemma delta_field:
  assumes inv: "delta_inv nBits tmp shift"
    and x: "\<forall>i\<ge>shift - nBits. bit x i
           = bit (tmp OR push_bit (shift - nBits) (take_bit nBits v)) i"
  shows "drop_bit (shift - nBits) x AND (push_bit nBits 1 - 1) = take_bit nBits v"
proof -
  have le: "nBits \<le> shift"
    by (rule delta_inv_step(1) [OF inv])
  have "take_bit nBits (drop_bit (shift - nBits) x) = take_bit nBits v"
  proof (rule bit_eqI)
    fix j
    have "\<not> bit tmp (shift - nBits + j)" if "j < nBits"
      using that inv le by (auto simp: delta_inv_def)
    then show "bit (take_bit nBits (drop_bit (shift - nBits) x)) j = bit (take_bit nBits v) j"
      using x by (auto simp: bit_take_bit_iff bit_drop_bit_eq delta_step_bits)
  qed
  then show ?thesis
    by (simp only: and_py_mask)
qed

lemma length_bytes_of_words: "length (bytes_of_words ws) = 2 * length ws"
  by (induction ws) (simp_all add: bytes_of_words_def)

lemma readUShort_words:
  assumes "0 \<le> pos r"
    and "drop (nat (pos r)) (data r) = bytes_of_words (x # ws) @ rest"
    and "0 \<le> x \<and> x < 65536"
  shows "readUShort r = Inr (x, r\<lparr>pos := pos r + 2\<rparr>)"
    and "drop (nat (pos r + 2)) (data r) = bytes_of_words ws @ rest"
proof -
  have d: "drop (nat (pos r)) (data r) = be_bytes 2 x @ (bytes_of_words ws @ rest)"
    using assms(2) by (simp add: bytes_of_words_def)
  have ne: "be_bytes 2 x \<noteq> []"
    by (metis length_be_bytes length_0_conv zero_neq_numeral)
  from readData_prefix [OF assms(1) d ne]
  have rd: "readData 2 r = Inr (be_bytes 2 x, r\<lparr>pos := pos r + 2\<rparr>)"
    and dr: "drop (nat (pos r + 2)) (data r) = bytes_of_words ws @ rest"
    by simp_all
  have "be_int (be_bytes 2 x) = x"
    using assms(3) by (intro be_int_be_bytes_unsigned) simp_all
  then show "readUShort r = Inr (x, r\<lparr>pos := pos r + 2\<rparr>)"
    using rd by (simp add: readUShort_def readUnsigned_def)
  show "drop (nat (pos r + 2)) (data r) = bytes_of_words ws @ rest"
    by (rule dr)
qed

lemma delta_words_range:
  assumes "delta_inv nBits tmp shift"
  shows "\<forall>x\<in>set (delta_words nBits vs tmp shift). 0 \<le> x \<and> x < 65536"
  using assms
proof (induction vs arbitrary: tmp shift)
  case Nil
  then show ?case using delta_inv_range(1) [OF Nil] by simp
next
  case (Cons v vs)
  show ?case
  proof (cases "shift - nBits = 0")
    case True
    then show ?thesis
      using delta_inv_range(2) [OF Cons.prems, of v]
        Cons.IH [OF delta_inv_step(4) [OF Cons.prems]]
      by (simp add: Let_def)
  next
    case False
    then show ?thesis
      using Cons.IH [OF delta_inv_step(3) [OF Cons.prems False]]
      by (simp add: Let_def)
  qed
qed

text \<open>
  The loop of \<^verbatim>\<open>read\<close>, started in the state that corresponds to the state
  \<open>(tmp, shift)\<close> of \<^verbatim>\<open>write\<close>, on a buffer that holds the words \<^verbatim>\<open>write\<close> emits
  from that state on, returns the values: either \<^verbatim>\<open>write\<close> is at the start of a word
  and \<^verbatim>\<open>read\<close> is about to fetch one, or \<^verbatim>\<open>read\<close> holds the completed word
  \<^verbatim>\<open>write\<close> is filling.
\<close>

lemma DeltaValue_read_loop_words:
  assumes "delta_inv nBits tmp shift"
    and "\<forall>v\<in>set vs. - (2 ^ (nBits - 1)) \<le> v \<and> v < 2 ^ (nBits - 1)"
    and "0 \<le> pos r"
    and "(shift = 16 \<and> shift_r = 0
           \<and> drop (nat (pos r)) (data r) = bytes_of_words (delta_words nBits vs tmp shift) @ rest
           \<and> k = length (delta_words nBits vs tmp shift))
       \<or> (shift < 16 \<and> shift_r = shift
           \<and> (\<exists>ws'. delta_words nBits vs tmp shift = tmp_r # ws'
                \<and> drop (nat (pos r)) (data r) = bytes_of_words ws' @ rest \<and> k = length ws'))"
  shows "DeltaValue_read_loop (length vs) nBits (push_bit nBits 1 - 1)
           (push_bit (nBits - 1) 1) (push_bit nBits 1) tmp_r shift_r r
         = Inr (vs, r\<lparr>pos := pos r + 2 * int k\<rparr>)"
  using assms
proof (induction vs arbitrary: tmp shift r tmp_r shift_r k)
  case Nil
  then show ?case by auto
next
  case (Cons v vs)
  note inv = Cons.prems(1) and st = Cons.prems(4)
  let ?s = "shift - nBits"
  let ?tmp' = "tmp OR push_bit ?s (take_bit nBits v)"
  have nz: "0 < nBits" "0 < shift" "shift \<le> 16"
    using inv by (simp_all add: delta_inv_def)
  obtain x ws' where ws: "delta_words nBits (v # vs) tmp shift = x # ws'"
    and bits: "\<forall>i\<ge>?s. bit x i = bit ?tmp' i"
    and tail: "if ?s = 0 then ws' = delta_words nBits vs 0 16
               else x # ws' = delta_words nBits vs ?tmp' ?s"
    using delta_words_step [OF inv, of v vs] by blast
  have xr: "0 \<le> x \<and> x < 65536"
    using delta_words_range [OF inv, of "v # vs"] ws by (metis list.set_intros(1))
  define \<rho> where "\<rho> = (if shift = 16 then r\<lparr>pos := pos r + 2\<rparr> else r)"
  have cur: "(if shift_r = 0
              then (case readUShort r of
                      Inl e \<Rightarrow> Inl e
                    | Inr (t, reader') \<Rightarrow> Inr (t, 16, reader'))
              else Inr (tmp_r, shift_r, r)) = Inr (x, shift, \<rho>)"
    and d\<rho>: "drop (nat (pos \<rho>)) (data \<rho>) = bytes_of_words ws' @ rest"
    and p\<rho>: "0 \<le> pos \<rho>"
    and k\<rho>: "\<rho>\<lparr>pos := pos \<rho> + 2 * int (length ws')\<rparr> = r\<lparr>pos := pos r + 2 * int k\<rparr>"
  proof -
    show "(if shift_r = 0
              then (case readUShort r of
                      Inl e \<Rightarrow> Inl e
                    | Inr (t, reader') \<Rightarrow> Inr (t, 16, reader'))
              else Inr (tmp_r, shift_r, r)) = Inr (x, shift, \<rho>)"
      using st ws nz readUShort_words(1) [OF Cons.prems(3) _ xr, of ws' rest]
      by (auto simp: \<rho>_def)
    show "drop (nat (pos \<rho>)) (data \<rho>) = bytes_of_words ws' @ rest"
      using st ws nz readUShort_words(2) [OF Cons.prems(3) _ xr, of ws' rest]
      by (auto simp: \<rho>_def)
    show "0 \<le> pos \<rho>"
      using Cons.prems(3) by (simp add: \<rho>_def)
    show "\<rho>\<lparr>pos := pos \<rho> + 2 * int (length ws')\<rparr> = r\<lparr>pos := pos r + 2 * int k\<rparr>"
      using st ws nz by (auto simp: \<rho>_def)
  qed
  have val: "drop_bit ?s x AND (push_bit nBits 1 - 1) = take_bit nBits v"
    by (rule delta_field [OF inv bits])
  have sgn: "(if take_bit nBits v AND push_bit (nBits - 1) 1 \<noteq> 0
          then take_bit nBits v - push_bit nBits 1 else take_bit nBits v) = v"
    using Cons.prems(2) nz(1) by (intro sign_extend) simp_all
  have rng: "\<forall>v\<in>set vs. - (2 ^ (nBits - 1)) \<le> v \<and> v < 2 ^ (nBits - 1)"
    using Cons.prems(2) by simp
  have rec: "DeltaValue_read_loop (length vs) nBits (push_bit nBits 1 - 1)
           (push_bit (nBits - 1) 1) (push_bit nBits 1) x ?s \<rho>
         = Inr (vs, \<rho>\<lparr>pos := pos \<rho> + 2 * int (length ws')\<rparr>)"
  proof (cases "?s = 0")
    case True
    have "(16 = (16::nat) \<and> ?s = 0
           \<and> drop (nat (pos \<rho>)) (data \<rho>) = bytes_of_words (delta_words nBits vs 0 16) @ rest
           \<and> length ws' = length (delta_words nBits vs 0 16))
       \<or> ((16::nat) < 16 \<and> ?s = 16
           \<and> (\<exists>ws''. delta_words nBits vs 0 16 = x # ws''
                \<and> drop (nat (pos \<rho>)) (data \<rho>) = bytes_of_words ws'' @ rest
                \<and> length ws' = length ws''))"
      using True tail d\<rho> by simp
    from Cons.IH [OF delta_inv_step(4) [OF inv] rng p\<rho> this]
    show ?thesis .
  next
    case False
    have lt: "?s < 16" using nz by simp
    have "(?s = 16 \<and> ?s = 0
           \<and> drop (nat (pos \<rho>)) (data \<rho>) = bytes_of_words (delta_words nBits vs ?tmp' ?s) @ rest
           \<and> length ws' = length (delta_words nBits vs ?tmp' ?s))
       \<or> (?s < 16 \<and> ?s = ?s
           \<and> (\<exists>ws''. delta_words nBits vs ?tmp' ?s = x # ws''
                \<and> drop (nat (pos \<rho>)) (data \<rho>) = bytes_of_words ws'' @ rest
                \<and> length ws' = length ws''))"
      using False tail d\<rho> lt by (metis (full_types))
    from Cons.IH [OF delta_inv_step(3) [OF inv False] rng p\<rho> this]
    show ?thesis .
  qed
  have "DeltaValue_read_loop (Suc (length vs)) nBits (push_bit nBits 1 - 1)
           (push_bit (nBits - 1) 1) (push_bit nBits 1) tmp_r shift_r r
        = Inr (v # vs, \<rho>\<lparr>pos := pos \<rho> + 2 * int (length ws')\<rparr>)"
    unfolding DeltaValue_read_loop.simps cur
    by (simp only: sum.case prod.case Let_def val sgn rec)
  then show ?case
    using k\<rho> by simp
qed

lemma delta_inv_start:
  assumes "DeltaFormat \<in> {1, 2, 3 :: int}"
  shows "delta_inv (push_bit (nat DeltaFormat) 1) 0 16"
proof -
  have "(push_bit (nat DeltaFormat) 1 :: nat) \<in> {2, 4, 8}"
    using assms by (auto simp: push_bit_eq_mult)
  then show ?thesis
    by (auto simp: delta_inv_def)
qed

text \<open>
  C4. Let the enclosing table give \<^verbatim>\<open>StartSize\<close>, \<^verbatim>\<open>EndSize\<close> and a
  \<^verbatim>\<open>DeltaFormat\<close> of 1, 2 or 3, let \<open>n = 2 ^ DeltaFormat\<close>, and let \<open>vs\<close> be
  \<^verbatim>\<open>EndSize - StartSize + 1\<close> integers, each between \<open>-2 ^ (n - 1)\<close> and
  \<open>2 ^ (n - 1) - 1\<close>. Then \<^verbatim>\<open>DeltaValue.write\<close> succeeds and appends 16-bit words
  \<open>ws\<close> to the writer, each as one big-endian unsigned short, and
  \<^verbatim>\<open>DeltaValue.read\<close>, at any cursor where the buffer holds those words (followed by
  anything), returns \<open>vs\<close> and leaves the cursor right behind the words.
\<close>

theorem DeltaValue_roundtrip:
  assumes td: "tableDict ''StartSize'' = Some StartSize"
      "tableDict ''EndSize'' = Some EndSize"
      "tableDict ''DeltaFormat'' = Some DeltaFormat"
    and fmt: "DeltaFormat \<in> {1, 2, 3}"
    and len: "int (length vs) = EndSize - StartSize + 1"
    and rng: "\<forall>v\<in>set vs. - (2 ^ (2 ^ nat DeltaFormat - 1)) \<le> v
                \<and> v < 2 ^ (2 ^ nat DeltaFormat - 1)"
  shows "\<exists>ws. DeltaValue_write tableDict w vs
             = Inr (set_items (items w @ map (\<lambda>x. Data (be_bytes 2 x)) ws) w)
     \<and> (\<forall>r rest. 0 \<le> pos r
            \<and> drop (nat (pos r)) (data r) = concat (map (be_bytes 2) ws) @ rest
          \<longrightarrow> DeltaValue_read tableDict r
                = Inr (vs, r\<lparr>pos := pos r + 2 * int (length ws)\<rparr>))"
proof -
  define nBits :: nat where "nBits = push_bit (nat DeltaFormat) 1"
  define ws where "ws = delta_words nBits vs 0 16"
  have inv: "delta_inv nBits 0 16"
    unfolding nBits_def by (rule delta_inv_start [OF fmt])
  have nB: "nBits = 2 ^ nat DeltaFormat"
    by (simp add: nBits_def push_bit_eq_mult)
  have rng': "\<forall>v\<in>set vs. - (2 ^ (nBits - 1)) \<le> v \<and> v < 2 ^ (nBits - 1)"
    using rng by (simp add: nB)
  have n: "nat (EndSize - StartSize + 1) = length vs"
    using len by linarith
  have wr: "DeltaValue_write tableDict w vs
      = Inr (set_items (items w @ map (\<lambda>x. Data (be_bytes 2 x)) ws) w)"
    using DeltaValue_write_loop_words [OF inv, of vs w] td fmt len
    unfolding DeltaValue_write_def tableDict_get_def ws_def write_words_def nBits_def
    by (simp add: Let_def)
  have rd: "DeltaValue_read tableDict r = Inr (vs, r\<lparr>pos := pos r + 2 * int (length ws)\<rparr>)"
    if a: "0 \<le> pos r \<and> drop (nat (pos r)) (data r) = concat (map (be_bytes 2) ws) @ rest"
    for r rest
  proof -
    have st: "((16::nat) = 16 \<and> (0::nat) = 0
           \<and> drop (nat (pos r)) (data r) = bytes_of_words (delta_words nBits vs 0 16) @ rest
           \<and> length ws = length (delta_words nBits vs 0 16))
       \<or> ((16::nat) < 16 \<and> (0::nat) = 16
           \<and> (\<exists>ws'. delta_words nBits vs 0 16 = 0 # ws'
                \<and> drop (nat (pos r)) (data r) = bytes_of_words ws' @ rest
                \<and> length ws = length ws'))"
      using a by (simp add: ws_def bytes_of_words_def)
    from DeltaValue_read_loop_words [OF inv rng' _ st] a
    have "DeltaValue_read_loop (length vs) nBits (push_bit nBits 1 - 1)
           (push_bit (nBits - 1) 1) (push_bit nBits 1) 0 0 r
         = Inr (vs, r\<lparr>pos := pos r + 2 * int (length ws)\<rparr>)"
      by blast
    then show ?thesis
      using td fmt n
      unfolding DeltaValue_read_def tableDict_get_def nBits_def
      by (simp add: Let_def)
  qed
  show ?thesis
    using wr rd by blast
qed

theorem DeltaValue_roundtrip_witness:
  "DeltaValue_write [''StartSize'' \<mapsto> 12, ''EndSize'' \<mapsto> 16, ''DeltaFormat'' \<mapsto> 2]
      newWriter [1, -1, 7, -8, 3]
     = Inr (set_items [Data [0x1F, 0x78], Data [0x30, 0]] newWriter)
   \<and> DeltaValue_read [''StartSize'' \<mapsto> 12, ''EndSize'' \<mapsto> 16, ''DeltaFormat'' \<mapsto> 2]
        \<lparr>data = [0x1F, 0x78, 0x30, 0], offset = 0, pos = 0\<rparr>
     = Inr ([1, -1, 7, -8, 3], \<lparr>data = [0x1F, 0x78, 0x30, 0], offset = 0, pos = 4\<rparr>)"
proof -
  define td :: tableDict
    where "td = [''StartSize'' \<mapsto> 12, ''EndSize'' \<mapsto> 16, ''DeltaFormat'' \<mapsto> 2]"
  define vs :: "int list" where "vs = [1, -1, 7, -8, 3]"
  have h1: "td ''StartSize'' = Some 12" and h2: "td ''EndSize'' = Some 16"
    and h3: "td ''DeltaFormat'' = Some 2"
    by (simp_all add: td_def)
  have h4: "(2::int) \<in> {1, 2, 3}" and h5: "int (length vs) = 16 - 12 + 1"
    and h6: "\<forall>v\<in>set vs. - (2 ^ (2 ^ nat 2 - 1)) \<le> v \<and> v < 2 ^ (2 ^ nat 2 - 1)"
    by (simp_all add: vs_def)
  from DeltaValue_roundtrip [of td 12 16 2 vs newWriter, OF h1 h2 h3 h4 h5 h6]
  obtain ws where W: "DeltaValue_write td newWriter vs
        = Inr (set_items (items newWriter @ map (\<lambda>x. Data (be_bytes 2 x)) ws) newWriter)"
    and R: "\<And>r rest. 0 \<le> pos r
            \<and> drop (nat (pos r)) (data r) = concat (map (be_bytes 2) ws) @ rest
          \<Longrightarrow> DeltaValue_read td r = Inr (vs, r\<lparr>pos := pos r + 2 * int (length ws)\<rparr>)"
    by blast
  have C: "DeltaValue_write td newWriter vs
      = Inr (set_items [Data [0x1F, 0x78], Data [0x30, 0]] newWriter)"
    unfolding td_def vs_def by code_simp
  from W C have "map (\<lambda>x. Data (be_bytes 2 x)) ws = [Data [0x1F, 0x78], Data [0x30, 0]]"
    by (simp add: set_items_def newWriter_def)
  then have "map item_bytes (map (\<lambda>x. Data (be_bytes 2 x)) ws)
      = map item_bytes [Data [0x1F, 0x78], Data [0x30, 0]]"
    by simp
  then have m: "map (be_bytes 2) ws = [[0x1F, 0x78], [0x30, 0]]"
    by (simp add: comp_def)
  then have l: "length ws = 2"
    by (metis length_map length_Cons list.size(3) numeral_2_eq_2)
  have cc: "concat (map (be_bytes 2) ws) = [0x1F, 0x78, 0x30, 0]"
    by (simp add: m)
  have "DeltaValue_read td \<lparr>data = [0x1F, 0x78, 0x30, 0], offset = 0, pos = 0\<rparr>
     = Inr (vs, \<lparr>data = [0x1F, 0x78, 0x30, 0], offset = 0, pos = 4\<rparr>)"
    using R [of "\<lparr>data = [0x1F, 0x78, 0x30, 0], offset = 0, pos = 0\<rparr>" "[]"] cc l
    by simp
  with C show ?thesis
    unfolding td_def vs_def by simp
qed

section \<open>VarIdxMapValue: which indices survive the outer/inner split\<close>

lemma VarIdx_innerBits_range: "1 \<le> VarIdx_innerBits fmt \<and> VarIdx_innerBits fmt \<le> 16"
proof -
  have "fmt AND 15 = take_bit 4 fmt"
    using take_bit_eq_mask [of 4 fmt] by (simp add: mask_eq_exp_minus_1)
  moreover have "0 \<le> take_bit 4 fmt" "take_bit 4 fmt < 2 ^ 4"
    by (simp_all add: take_bit_int_less_exp del: power_numeral)
  ultimately show ?thesis
    by (simp add: VarIdx_innerBits_def)
qed

lemma VarIdx_entrySize_range: "VarIdx_entrySize fmt \<in> {1, 2, 3, 4}"
proof -
  define t where "t = take_bit 2 (drop_bit 4 fmt)"
  have e: "VarIdx_entrySize fmt = 1 + t"
    by (simp add: VarIdx_entrySize_def t_def take_bit_eq_mask drop_bit_and
        mask_eq_exp_minus_1)
  have "0 \<le> t" and "t < 2 ^ 2"
    unfolding t_def by (rule take_bit_nonnegative, rule take_bit_int_less_exp)
  then have "t = 0 \<or> t = 1 \<or> t = 2 \<or> t = 3"
    by (simp del: power_numeral add: power2_eq_square) linarith
  then show ?thesis
    unfolding e by auto
qed

lemma outer_mask_bits:
  assumes "ib \<le> 32"
  shows "(0xFFFFFFFF :: int) - mask ib = push_bit ib (mask (32 - ib))"
proof -
  have "(2::int) ^ 32 = 2 ^ ib * 2 ^ (32 - ib)"
    using assms by (simp flip: power_add)
  then have "(4294967296::int) = 2 ^ ib * 2 ^ (32 - ib)"
    by simp
  then show ?thesis
    by (simp add: mask_eq_exp_minus_1 push_bit_eq_mult algebra_simps)
qed

text \<open>The split of \<^verbatim>\<open>write\<close> and the reconstruction of \<^verbatim>\<open>read\<close>, on the bits: the
  outer half moves down to bit \<open>ib\<close>, the inner half keeps its \<open>ib\<close> low bits.\<close>

lemma varidx_split:
  fixes idx :: int
  assumes ib: "1 \<le> ib" "ib \<le> 16"
    and r: "0 \<le> idx" "idx < 2 ^ 32"
    and low: "idx AND 0xFFFF < 2 ^ ib"
  defines "raw \<equiv> drop_bit (16 - ib) (idx AND 0xFFFF0000) OR (idx AND (push_bit ib 1 - 1))"
  shows "push_bit (16 - ib) (raw AND (0xFFFFFFFF - (push_bit ib 1 - 1)))
           OR (raw AND (push_bit ib 1 - 1)) = idx"
    and "raw = push_bit ib (drop_bit 16 idx) OR take_bit ib idx"
    and "0 \<le> raw"
proof -
  have c1: "(0xFFFF0000 :: int) = push_bit 16 (mask 16)"
    and c4: "(0xFFFF :: int) = mask 16"
    by (simp_all add: mask_eq_exp_minus_1 push_bit_eq_mult)
  have c3: "(0xFFFFFFFF :: int) - mask ib = push_bit ib (mask (32 - ib))"
    using ib by (intro outer_mask_bits) simp
  have "take_bit 32 idx = idx"
    using r by (simp add: take_bit_int_eq_self)
  then have b32: "n < 32" if "bit idx n" for n
    using that by (metis bit_take_bit_iff)
  have lt: "take_bit 16 idx < 2 ^ ib"
    using low by (simp only: c4 take_bit_eq_mask)
  have "take_bit ib (take_bit 16 idx) = take_bit 16 idx"
    by (rule take_bit_int_eq_self [OF _ lt]) simp
  then have blow: "\<not> bit idx n" if "ib \<le> n" "n < 16" for n
    using that by (metis bit_take_bit_iff not_le)
  define os where "os = 16 - ib"
  have os: "ib + os = 16"
    using ib by (simp add: os_def)
  have raw: "raw = drop_bit os (idx AND push_bit 16 (mask 16)) OR take_bit ib idx"
    unfolding raw_def os_def py_mask_eq c1 by (simp only: take_bit_eq_mask)
  have R1: "bit raw n = bit idx n" if "n < ib" for n
    using that os unfolding raw
    by (auto simp: bit_or_iff bit_and_iff bit_drop_bit_eq bit_push_bit_iff bit_mask_iff
        bit_take_bit_iff)
  have R2: "bit raw (ib + m) = bit idx (16 + m)" for m
  proof -
    have e: "os + (ib + m) = 16 + m" using os by simp
    have "bit raw (ib + m) = bit (idx AND push_bit 16 (mask 16)) (os + (ib + m))"
      unfolding raw by (simp add: bit_or_iff bit_and_iff bit_drop_bit_eq bit_take_bit_iff)
    also have "\<dots> = bit (idx AND push_bit 16 (mask 16)) (16 + m)"
      by (simp only: e)
    also have "\<dots> = bit idx (16 + m)"
      using b32 [of "16 + m"]
      by (auto simp: bit_and_iff bit_push_bit_iff bit_mask_iff)
    finally show ?thesis .
  qed
  have L: "bit (push_bit (16 - ib) (raw AND (0xFFFFFFFF - (push_bit ib 1 - 1)))
           OR (raw AND (push_bit ib 1 - 1))) n
       \<longleftrightarrow> (os \<le> n \<and> bit raw (n - os) \<and> ib \<le> n - os \<and> n - os < 32)
           \<or> (bit raw n \<and> n < ib)" for n
    unfolding py_mask_eq c3 os_def [symmetric] using ib
    by (auto simp: bit_or_iff bit_and_iff bit_push_bit_iff bit_mask_iff)
  show "push_bit (16 - ib) (raw AND (0xFFFFFFFF - (push_bit ib 1 - 1)))
           OR (raw AND (push_bit ib 1 - 1)) = idx"
  proof (rule bit_eqI)
    fix n
    consider "n < ib" | "ib \<le> n" "n < 16" | "16 \<le> n" by linarith
    then show "bit (push_bit (16 - ib) (raw AND (0xFFFFFFFF - (push_bit ib 1 - 1)))
           OR (raw AND (push_bit ib 1 - 1))) n = bit idx n"
    proof cases
      case 1
      then have "\<not> (os \<le> n \<and> ib \<le> n - os)" using os by linarith
      then show ?thesis unfolding L using 1 R1 [of n] by blast
    next
      case 2
      then have "\<not> (os \<le> n \<and> ib \<le> n - os)" using os by linarith
      then show ?thesis unfolding L using 2 blow [of n] by auto
    next
      case 3
      then obtain m where m: "n = 16 + m"
        using le_Suc_ex by blast
      then have n: "n - os = ib + m" "os \<le> n" "ib \<le> n - os" "\<not> n < ib"
        using os by linarith+
      have "n - os < 32" if "bit idx n"
        using b32 [OF that] by simp
      then show ?thesis
        unfolding L using n R2 [of m] m by auto
    qed
  qed
  show "raw = push_bit ib (drop_bit 16 idx) OR take_bit ib idx"
  proof (rule bit_eqI)
    fix n
    show "bit raw n = bit (push_bit ib (drop_bit 16 idx) OR take_bit ib idx) n"
    proof (cases "n < ib")
      case True
      then show ?thesis
        using R1 [of n] by (auto simp: bit_or_iff bit_push_bit_iff bit_take_bit_iff)
    next
      case False
      then obtain m where m: "n = ib + m"
        using le_Suc_ex not_le by blast
      show ?thesis
        unfolding m R2
        by (auto simp: bit_or_iff bit_push_bit_iff bit_take_bit_iff bit_drop_bit_eq)
    qed
  qed
  show "0 \<le> raw"
    using r by (simp add: raw_def py_mask_eq mask_eq_exp_minus_1)
qed

lemma VarIdx_one:
  assumes "0 \<le> idx" and "idx < 2 ^ 32"
    and "idx AND 0xFFFF < 2 ^ nat (VarIdx_innerBits fmt)"
  shows "VarIdx_idx fmt (VarIdx_raw fmt idx) = idx"
    and "VarIdx_raw fmt idx
          = push_bit (nat (VarIdx_innerBits fmt)) (drop_bit 16 idx)
              OR (idx AND VarIdx_innerMask fmt)"
    and "0 \<le> VarIdx_raw fmt idx"
proof -
  define ib where "ib = nat (VarIdx_innerBits fmt)"
  have ib: "1 \<le> ib" "ib \<le> 16"
    using VarIdx_innerBits_range [of fmt] unfolding ib_def by linarith+
  have os: "nat (VarIdx_outerShift fmt) = 16 - ib"
    using VarIdx_innerBits_range [of fmt] unfolding VarIdx_outerShift_def ib_def by linarith
  note s = varidx_split [OF ib assms(1,2) assms(3) [folded ib_def]]
  show "VarIdx_idx fmt (VarIdx_raw fmt idx) = idx"
    using s(1) by (simp only: VarIdx_idx_def VarIdx_raw_def VarIdx_outerMask_def
        VarIdx_innerMask_def os ib_def [symmetric])
  show "VarIdx_raw fmt idx
          = push_bit (nat (VarIdx_innerBits fmt)) (drop_bit 16 idx)
              OR (idx AND VarIdx_innerMask fmt)"
    using s(2) by (simp only: VarIdx_raw_def VarIdx_innerMask_def os ib_def [symmetric]
        and_py_mask)
  show "0 \<le> VarIdx_raw fmt idx"
    using s(3) by (simp only: VarIdx_raw_def VarIdx_innerMask_def os ib_def [symmetric])
qed

lemma VarIdx_methods:
  "VarIdx_write_method (VarIdx_entrySize fmt) = Inr (writeUnsigned (nat (VarIdx_entrySize fmt)))"
  "VarIdx_read_method (VarIdx_entrySize fmt) = Inr (readUnsigned (nat (VarIdx_entrySize fmt)))"
  using VarIdx_entrySize_range [of fmt]
  by (auto simp: VarIdx_write_method_def VarIdx_read_method_def writeUInt8_def
      writeUShort_def writeUInt24_def writeULong_def readUInt8_def readUShort_def
      readUInt24_def readULong_def eval_nat_numeral)

lemma VarIdxMapValue_write_loop_items:
  assumes "\<forall>idx\<in>set mapping. 0 \<le> VarIdx_raw fmt idx \<and> VarIdx_raw fmt idx < 2 ^ (8 * n)"
  shows "VarIdxMapValue_write_loop fmt (writeUnsigned n) mapping w
     = Inr (set_items (items w @ map (\<lambda>idx. Data (be_bytes n (VarIdx_raw fmt idx))) mapping) w)"
  using assms
proof (induction mapping arbitrary: w)
  case Nil
  show ?case by simp
next
  case (Cons idx mapping)
  then show ?case
    by (simp add: writeUnsigned_ok)
qed

lemma VarIdxMapValue_read_loop_items:
  assumes "\<forall>idx\<in>set mapping. 0 \<le> VarIdx_raw fmt idx \<and> VarIdx_raw fmt idx < 2 ^ (8 * n)
             \<and> VarIdx_idx fmt (VarIdx_raw fmt idx) = idx"
    and "0 < n" and "0 \<le> pos r"
    and "drop (nat (pos r)) (data r)
          = concat (map (\<lambda>idx. be_bytes n (VarIdx_raw fmt idx)) mapping) @ rest"
  shows "VarIdxMapValue_read_loop (length mapping) fmt (readUnsigned n) r
     = Inr (mapping, r\<lparr>pos := pos r + int (n * length mapping)\<rparr>)"
  using assms
proof (induction mapping arbitrary: r)
  case Nil
  show ?case by simp
next
  case (Cons idx mapping)
  have d: "drop (nat (pos r)) (data r) = be_bytes n (VarIdx_raw fmt idx)
      @ (concat (map (\<lambda>idx. be_bytes n (VarIdx_raw fmt idx)) mapping) @ rest)"
    using Cons.prems(4) by simp
  have raw: "0 \<le> VarIdx_raw fmt idx" "VarIdx_raw fmt idx < 2 ^ (8 * n)"
    "VarIdx_idx fmt (VarIdx_raw fmt idx) = idx"
    using Cons.prems(1) by simp_all
  note rd = readUnsigned_prefix [OF Cons.prems(3) d Cons.prems(2) raw(1,2)]
  have "VarIdxMapValue_read_loop (length mapping) fmt (readUnsigned n)
          (r\<lparr>pos := pos r + int n\<rparr>)
     = Inr (mapping, r\<lparr>pos := pos r + int n\<rparr>
              \<lparr>pos := pos (r\<lparr>pos := pos r + int n\<rparr>) + int (n * length mapping)\<rparr>)"
    using Cons.prems(1,2,3) rd(2) by (intro Cons.IH) simp_all
  then show ?case
    using rd(1) raw(3) by (simp add: algebra_simps)
qed

text \<open>
  C3, as the code has it. For every \<^verbatim>\<open>EntryFormat\<close> (so also for those with
  \<^verbatim>\<open>innerBits\<close> = 9) and every list of indices \<open>idx\<close> with \<open>0 \<le> idx < 2 ^ 32\<close>
  whose low 16 bits fit \<^verbatim>\<open>innerBits\<close> bits and whose packed entry fits
  \<^verbatim>\<open>entrySize\<close> bytes: \<^verbatim>\<open>write\<close> packs each index as
  \<open>(outer << innerBits) | inner\<close> with \<open>outer = idx >> 16\<close> and
  \<open>inner = idx & innerMask\<close>, records the count and appends one big-endian entry of
  \<^verbatim>\<open>entrySize\<close> bytes per index; and \<^verbatim>\<open>read\<close>, given the same format and that
  count, at any cursor where the buffer holds those entries, returns the indices.
\<close>

theorem VarIdxMapValue_roundtrip:
  assumes fmt: "tableDict ''EntryFormat'' = Some fmt"
    and ok: "\<forall>idx\<in>set mapping. 0 \<le> idx \<and> idx < 2 ^ 32
               \<and> idx AND 0xFFFF < 2 ^ nat (VarIdx_innerBits fmt)
               \<and> VarIdx_raw fmt idx < 2 ^ (8 * nat (VarIdx_entrySize fmt))"
  shows "(\<forall>idx\<in>set mapping.
            VarIdx_raw fmt idx
              = push_bit (nat (VarIdx_innerBits fmt)) (drop_bit 16 idx)
                  OR (idx AND VarIdx_innerMask fmt))
    \<and> (\<exists>bs. VarIdxMapValue_write tableDict w mapping
               = Inr (set_items (items w @ map Data bs)
                        (setCountValue ''MappingCount'' (int (length mapping)) w))
          \<and> length bs = length mapping
          \<and> (\<forall>b\<in>set bs. int (length b) = VarIdx_entrySize fmt)
          \<and> (\<forall>td r rest.
                 td ''EntryFormat'' = Some fmt
                 \<and> td ''MappingCount'' = Some (int (length mapping))
                 \<and> 0 \<le> pos r \<and> drop (nat (pos r)) (data r) = concat bs @ rest
               \<longrightarrow> VarIdxMapValue_read td r
                     = Inr (mapping, r\<lparr>pos := pos r + int (length (concat bs))\<rparr>)))"
proof -
  define n where "n = nat (VarIdx_entrySize fmt)"
  define bs where "bs = map (\<lambda>idx. be_bytes n (VarIdx_raw fmt idx)) mapping"
  have n: "0 < n" "int n = VarIdx_entrySize fmt"
    using VarIdx_entrySize_range [of fmt] by (auto simp: n_def)
  have one: "0 \<le> VarIdx_raw fmt idx \<and> VarIdx_raw fmt idx < 2 ^ (8 * n)
      \<and> VarIdx_idx fmt (VarIdx_raw fmt idx) = idx
      \<and> VarIdx_raw fmt idx
          = push_bit (nat (VarIdx_innerBits fmt)) (drop_bit 16 idx)
              OR (idx AND VarIdx_innerMask fmt)"
    if "idx \<in> set mapping" for idx
    using ok that VarIdx_one [of idx fmt] unfolding n_def by blast
  have c1: "\<forall>idx\<in>set mapping.
            VarIdx_raw fmt idx
              = push_bit (nat (VarIdx_innerBits fmt)) (drop_bit 16 idx)
                  OR (idx AND VarIdx_innerMask fmt)"
    using one by blast
  have rawok: "\<forall>idx\<in>set mapping. 0 \<le> VarIdx_raw fmt idx \<and> VarIdx_raw fmt idx < 2 ^ (8 * n)"
    using one by blast
  have rt: "\<forall>idx\<in>set mapping. 0 \<le> VarIdx_raw fmt idx \<and> VarIdx_raw fmt idx < 2 ^ (8 * n)
             \<and> VarIdx_idx fmt (VarIdx_raw fmt idx) = idx"
    using one by blast
  have w0: "items (setCountValue ''MappingCount'' c w) = items w" for c
    by (cases w) (simp add: setCountValue_def set_localState_def)
  have bs': "map (\<lambda>idx. Data (be_bytes n (VarIdx_raw fmt idx))) mapping = map Data bs"
    by (simp add: bs_def comp_def)
  have "VarIdxMapValue_write_loop fmt (writeUnsigned n) mapping
          (setCountValue ''MappingCount'' (int (length mapping)) w)
     = Inr (set_items (items w @ map Data bs)
              (setCountValue ''MappingCount'' (int (length mapping)) w))"
    using VarIdxMapValue_write_loop_items [OF rawok,
        of "setCountValue ''MappingCount'' (int (length mapping)) w"]
    by (simp only: w0 bs')
  then have c2: "VarIdxMapValue_write tableDict w mapping
               = Inr (set_items (items w @ map Data bs)
                        (setCountValue ''MappingCount'' (int (length mapping)) w))"
    using fmt VarIdx_methods(1) [of fmt]
    by (simp add: VarIdxMapValue_write_def tableDict_get_def n_def)
  have c3: "length bs = length mapping"
    by (simp add: bs_def)
  have c4: "\<forall>b\<in>set bs. int (length b) = VarIdx_entrySize fmt"
    using n(2) by (auto simp: bs_def)
  have len: "length (concat bs) = n * length mapping"
    unfolding bs_def by (induction mapping) simp_all
  have c5: "VarIdxMapValue_read td r
                     = Inr (mapping, r\<lparr>pos := pos r + int (length (concat bs))\<rparr>)"
    if a: "td ''EntryFormat'' = Some fmt
                 \<and> td ''MappingCount'' = Some (int (length mapping))
                 \<and> 0 \<le> pos r \<and> drop (nat (pos r)) (data r) = concat bs @ rest"
    for td r rest
  proof -
    have d: "drop (nat (pos r)) (data r)
          = concat (map (\<lambda>idx. be_bytes n (VarIdx_raw fmt idx)) mapping) @ rest"
      using a by (simp add: bs_def)
    have p: "0 \<le> pos r" using a by simp
    have "VarIdxMapValue_read_loop (length mapping) fmt (readUnsigned n) r
       = Inr (mapping, r\<lparr>pos := pos r + int (n * length mapping)\<rparr>)"
      by (rule VarIdxMapValue_read_loop_items [OF rt n(1) p d])
    then show ?thesis
      using a VarIdx_methods(2) [of fmt]
      by (simp add: VarIdxMapValue_read_def tableDict_get_def n_def [symmetric] len)
  qed
  show ?thesis
    using c1 c2 c3 c4 c5 by blast
qed

text \<open>
  With \<^verbatim>\<open>innerBits\<close> = 9 the index 0x00012345 does not come back: its low half
  0x2345 needs 14 bits; \<^verbatim>\<open>write\<close> keeps 9 of them and \<^verbatim>\<open>read\<close> returns 0x00010145,
  with entries of 4, 3 and 2 bytes; an entry of 1 byte cannot hold the packed value
  0x345 and the write fails.
\<close>

theorem VarIdxMapValue_0x12345_counterexample:
  "VarIdxMapValue_write [''EntryFormat'' \<mapsto> 0x38] newWriter [0x12345]
     = Inr (set_items [Data [0, 0, 3, 0x45]] (setCountValue ''MappingCount'' 1 newWriter))
   \<and> VarIdxMapValue_read [''EntryFormat'' \<mapsto> 0x38, ''MappingCount'' \<mapsto> 1]
        \<lparr>data = [0, 0, 3, 0x45], offset = 0, pos = 0\<rparr>
     = Inr ([0x10145], \<lparr>data = [0, 0, 3, 0x45], offset = 0, pos = 4\<rparr>)
   \<and> VarIdxMapValue_write [''EntryFormat'' \<mapsto> 0x28] newWriter [0x12345]
     = Inr (set_items [Data [0, 3, 0x45]] (setCountValue ''MappingCount'' 1 newWriter))
   \<and> VarIdxMapValue_read [''EntryFormat'' \<mapsto> 0x28, ''MappingCount'' \<mapsto> 1]
        \<lparr>data = [0, 3, 0x45], offset = 0, pos = 0\<rparr>
     = Inr ([0x10145], \<lparr>data = [0, 3, 0x45], offset = 0, pos = 3\<rparr>)
   \<and> VarIdxMapValue_write [''EntryFormat'' \<mapsto> 0x18] newWriter [0x12345]
     = Inr (set_items [Data [3, 0x45]] (setCountValue ''MappingCount'' 1 newWriter))
   \<and> VarIdxMapValue_read [''EntryFormat'' \<mapsto> 0x18, ''MappingCount'' \<mapsto> 1]
        \<lparr>data = [3, 0x45], offset = 0, pos = 0\<rparr>
     = Inr ([0x10145], \<lparr>data = [3, 0x45], offset = 0, pos = 2\<rparr>)
   \<and> VarIdxMapValue_write [''EntryFormat'' \<mapsto> 0x08] newWriter [0x12345] = Inl StructError
   \<and> VarIdx_innerBits 0x38 = 9 \<and> (0x10145 :: int) \<noteq> 0x12345"
  by code_simp

theorem VarIdxMapValue_roundtrip_witness:
  "VarIdxMapValue_write [''EntryFormat'' \<mapsto> 0x18] newWriter [0x10145, 0x201FF]
     = Inr (set_items [Data [3, 0x45], Data [5, 0xFF]]
              (setCountValue ''MappingCount'' 2 newWriter))
   \<and> VarIdxMapValue_read [''EntryFormat'' \<mapsto> 0x18, ''MappingCount'' \<mapsto> 2]
        \<lparr>data = [3, 0x45, 5, 0xFF], offset = 0, pos = 0\<rparr>
     = Inr ([0x10145, 0x201FF], \<lparr>data = [3, 0x45, 5, 0xFF], offset = 0, pos = 4\<rparr>)"
proof -
  define tdw :: tableDict where "tdw = [''EntryFormat'' \<mapsto> 0x18]"
  define tdr :: tableDict where "tdr = [''EntryFormat'' \<mapsto> 0x18, ''MappingCount'' \<mapsto> 2]"
  define mapping :: "int list" where "mapping = [0x10145, 0x201FF]"
  have h1: "tdw ''EntryFormat'' = Some 0x18"
    by (simp add: tdw_def)
  have h2: "\<forall>idx\<in>set mapping. 0 \<le> idx \<and> idx < 2 ^ 32
               \<and> idx AND 0xFFFF < 2 ^ nat (VarIdx_innerBits 0x18)
               \<and> VarIdx_raw 0x18 idx < 2 ^ (8 * nat (VarIdx_entrySize 0x18))"
    unfolding mapping_def by code_simp
  from VarIdxMapValue_roundtrip [of tdw "0x18" mapping newWriter, OF h1 h2]
  obtain bs where W: "VarIdxMapValue_write tdw newWriter mapping
               = Inr (set_items (items newWriter @ map Data bs)
                        (setCountValue ''MappingCount'' (int (length mapping)) newWriter))"
    and R: "\<And>td r rest. td ''EntryFormat'' = Some 0x18
                 \<and> td ''MappingCount'' = Some (int (length mapping))
                 \<and> 0 \<le> pos r \<and> drop (nat (pos r)) (data r) = concat bs @ rest
               \<Longrightarrow> VarIdxMapValue_read td r
                     = Inr (mapping, r\<lparr>pos := pos r + int (length (concat bs))\<rparr>)"
    by blast
  have C: "VarIdxMapValue_write tdw newWriter mapping
      = Inr (set_items [Data [3, 0x45], Data [5, 0xFF]]
              (setCountValue ''MappingCount'' 2 newWriter))"
    unfolding tdw_def mapping_def by code_simp
  from W C have "map Data bs = [Data [3, 0x45], Data [5, 0xFF]]"
    by (simp add: set_items_def newWriter_def)
  then have bs: "bs = [[3, 0x45], [5, 0xFF]]"
    by (auto simp: map_eq_Cons_conv)
  have "VarIdxMapValue_read tdr \<lparr>data = [3, 0x45, 5, 0xFF], offset = 0, pos = 0\<rparr>
     = Inr (mapping, \<lparr>data = [3, 0x45, 5, 0xFF], offset = 0, pos = 4\<rparr>)"
    using R [of tdr "\<lparr>data = [3, 0x45, 5, 0xFF], offset = 0, pos = 0\<rparr>" "[]"]
    by (simp add: bs tdr_def mapping_def)
  with C show ?thesis
    unfolding tdw_def tdr_def mapping_def by simp
qed

section \<open>AATLookup: the empty mapping\<close>

text \<open>
  C10. For the empty mapping, \<^verbatim>\<open>AATLookup.write\<close> raises \<^verbatim>\<open>IndexError\<close>, whatever
  the converter, the font and the writer are: \<^verbatim>\<open>buildFormat2\<close> takes \<^verbatim>\<open>values[0]\<close>
  of the empty sorted list while the list of candidates is still being built, before
  any size is compared. Yet the empty mapping is a decodable wire form: the six bytes
  of a format-6 table with a unit size of 4 and no unit decode to the empty mapping.
\<close>

theorem AATLookup_write_empty:
  "AATLookup_write conv font w [] = Inl IndexError
   \<and> buildFormat2 conv [] = Inl IndexError
   \<and> AATLookup_candidates conv font [] = Inl IndexError
   \<and> AATLookup_read UShort_converter font \<lparr>data = [0, 6, 0, 4, 0, 0], offset = 0, pos = 0\<rparr>
       = Inr ([], \<lparr>data = [0, 6, 0, 4, 0, 0], offset = 0, pos = 6\<rparr>)"
proof (intro conjI)
  show b: "buildFormat2 conv [] = Inl IndexError"
    by (simp add: buildFormat2_def)
  then show c: "AATLookup_candidates conv font [] = Inl IndexError"
    by (simp add: AATLookup_candidates_def ebind_def)
  then show "AATLookup_write conv font w [] = Inl IndexError"
    by (simp add: AATLookup_write_def ebind_def)
  have r1: "readUShort \<lparr>data = [0, 6, 0, 4, 0, 0], offset = 0, pos = 0\<rparr>
      = Inr (6, \<lparr>data = [0, 6, 0, 4, 0, 0], offset = 0, pos = 2\<rparr>)"
    and r2: "readUShort \<lparr>data = [0, 6, 0, 4, 0, 0], offset = 0, pos = 2\<rparr>
      = Inr (4, \<lparr>data = [0, 6, 0, 4, 0, 0], offset = 0, pos = 4\<rparr>)"
    and r3: "readUShort \<lparr>data = [0, 6, 0, 4, 0, 0], offset = 0, pos = 4\<rparr>
      = Inr (0, \<lparr>data = [0, 6, 0, 4, 0, 0], offset = 0, pos = 6\<rparr>)"
    by code_simp+
  show "AATLookup_read UShort_converter font \<lparr>data = [0, 6, 0, 4, 0, 0], offset = 0, pos = 0\<rparr>
       = Inr ([], \<lparr>data = [0, 6, 0, 4, 0, 0], offset = 0, pos = 6\<rparr>)"
    by (simp add: AATLookup_read_def readFormat6_def ebind_def r1 r2 r3 UShort_converter_def)
qed

section \<open>AATLookup: the sizes the builders announce are the sizes written\<close>

lemma ebind_Inr: "ebind m f = Inr y \<longleftrightarrow> (\<exists>x. m = Inr x \<and> f x = Inr y)"
  by (cases m) (simp_all add: ebind_def)

lemma ebind_Inr_simp [simp]: "ebind (Inr x) f = f x"
  by (simp add: ebind_def)

lemma ebind_Inl_simp [simp]: "ebind (Inl e) f = Inl e"
  by (simp add: ebind_def)










section \<open>AATLookup: the smallest candidate is written\<close>






section \<open>The number of per-glyph lookups of an extended state table\<close>










section \<open>The entry table of an extended state table\<close>

lemma entries_inv_empty: "entries_inv [] Map.empty"
  by (simp add: entries_inv_def)

lemma entries_inv_Some:
  "entries_inv es ids \<Longrightarrow> ids d = Some i \<Longrightarrow> 0 \<le> i \<and> nat i < length es \<and> es ! nat i = d"
  by (simp add: entries_inv_def)

lemma entries_inv_None:
  assumes "entries_inv es ids" and "ids d = None"
  shows "d \<notin> set es"
proof
  assume "d \<in> set es"
  then obtain k where "k < length es" and "es ! k = d"
    by (auto simp: in_set_conv_nth)
  then have "0 \<le> int k \<and> nat (int k) < length es \<and> es ! nat (int k) = d"
    by simp
  with assms(1) have "ids d = Some (int k)"
    unfolding entries_inv_def by blast
  with assms(2) show False by simp
qed

lemma entries_inv_fresh:
  assumes "entries_inv es ids" and "ids d = None"
  shows "entries_inv (es @ [d]) (ids(d \<mapsto> int (length es)))"
proof -
  have nin: "d \<notin> set es"
    using assms by (rule entries_inv_None)
  have iff: "\<And>d' i. ids d' = Some i \<longleftrightarrow> 0 \<le> i \<and> nat i < length es \<and> es ! nat i = d'"
    using assms(1) unfolding entries_inv_def by blast
  have "(ids(d \<mapsto> int (length es))) d' = Some i
      \<longleftrightarrow> 0 \<le> i \<and> nat i < length (es @ [d]) \<and> (es @ [d]) ! nat i = d'" for d' i
  proof (cases "nat i < length es")
    case True
    then have "es ! nat i \<in> set es" by simp
    with nin have "es ! nat i \<noteq> d" by metis
    with True show ?thesis
      by (auto simp: nth_append iff)
  next
    case False
    then have "ids d' \<noteq> Some i" by (simp add: iff)
    with False show ?thesis
      by (auto simp: nth_append)
  qed
  with nin assms(1) show ?thesis
    unfolding entries_inv_def by simp
qed

lemma writeUShort_items:
  "writeUShort w i = Inr w' \<Longrightarrow> items w' = items w @ [Data (be_bytes 2 i)]"
  by (auto simp: writeUShort_def writeData_def append_item_def dest!: writeUnsigned_Inr)

lemma STX_cells_Nil [simp]: "STX_cells cls [] classes = []"
  by (simp add: STX_cells_def)

lemma STX_cells_Cons:
  "STX_cells cls (state # states) classes
     = STX_cells cls [state] classes @ STX_cells cls states classes"
  by (simp add: STX_cells_def)

lemma STX_cells_row_Nil [simp]: "STX_cells cls [state] [] = []"
  by (simp add: STX_cells_def)

lemma STX_cells_row_Cons:
  "STX_cells cls [state] (c # rest)
     = (case map_of state c of None \<Rightarrow> Inl KeyError | Some t \<Rightarrow> compileAction cls t)
       # STX_cells cls [state] rest"
  by (simp add: STX_cells_def)

text \<open>One row of the state array: every cell whose action compiles to \<open>d\<close> gets the
  index the dictionary has for \<open>d\<close> at the end.\<close>

lemma write_state_row_dedup:
  assumes "write_state_row cls state classes (w, es, ids) = Inr (w', es', ids')"
    and "entries_inv es ids"
  shows "\<exists>ds idxs. STX_cells cls [state] classes = map Inr ds
           \<and> items w' = items w @ map (\<lambda>i. Data (be_bytes 2 i)) idxs
           \<and> list_all2 (\<lambda>d i. ids' d = Some i) ds idxs
           \<and> entries_inv es' ids' \<and> ids \<subseteq>\<^sub>m ids' \<and> set es' = set es \<union> set ds"
  using assms
proof (induction classes arbitrary: w es ids)
  case Nil
  then have "w' = w" "es' = es" "ids' = ids" by simp_all
  with Nil.prems(2) show ?case
    by (intro exI [of _ "[]"]) simp
next
  case (Cons c rest)
  from Cons.prems(1) obtain t d where
    t: "map_of state c = Some t" and d: "compileAction cls t = Inr d"
    by (auto simp: ebind_def split: option.splits sum.splits)
  have cell: "STX_cells cls [state] (c # rest) = Inr d # STX_cells cls [state] rest"
    by (simp add: STX_cells_row_Cons t d)
  show ?case
  proof (cases "ids d")
    case None
    with Cons.prems(1) t d obtain w1 where
      w1: "writeUShort w (int (length es)) = Inr w1" and
      rest: "write_state_row cls state rest (w1, es @ [d], ids(d \<mapsto> int (length es)))
               = Inr (w', es', ids')"
      by (auto simp: ebind_Inr Let_def split: if_splits)
    have inv1: "entries_inv (es @ [d]) (ids(d \<mapsto> int (length es)))"
      using Cons.prems(2) None by (rule entries_inv_fresh)
    from Cons.IH [OF rest inv1] obtain ds idxs where
      c1: "STX_cells cls [state] rest = map Inr ds" and
      c2: "items w' = items w1 @ map (\<lambda>i. Data (be_bytes 2 i)) idxs" and
      c3: "list_all2 (\<lambda>d i. ids' d = Some i) ds idxs" and
      c4: "entries_inv es' ids'" and
      c5: "ids(d \<mapsto> int (length es)) \<subseteq>\<^sub>m ids'" and
      c6: "set es' = set (es @ [d]) \<union> set ds"
      by blast
    from c5 have here: "ids' d = Some (int (length es))"
      by (auto simp: map_le_def dom_def split: if_splits)
    from c5 None have le: "ids \<subseteq>\<^sub>m ids'"
      by (auto simp: map_le_def dom_def split: if_splits)
    have C1: "STX_cells cls [state] (c # rest) = map Inr (d # ds)"
      by (simp add: cell c1)
    have C2: "items w' = items w @ map (\<lambda>i. Data (be_bytes 2 i)) (int (length es) # idxs)"
      by (simp add: c2 writeUShort_items [OF w1])
    have C3: "list_all2 (\<lambda>d i. ids' d = Some i) (d # ds) (int (length es) # idxs)"
      using c3 here by simp
    have C6: "set es' = set es \<union> set (d # ds)"
      using c6 by auto
    show ?thesis
      by (rule exI [of _ "d # ds"], rule exI [of _ "int (length es) # idxs"])
        (intro conjI C1 C2 C3 c4 le C6)
  next
    case (Some i)
    with Cons.prems(1) t d obtain w1 where
      w1: "writeUShort w i = Inr w1" and
      rest: "write_state_row cls state rest (w1, es, ids) = Inr (w', es', ids')"
      by (auto simp: ebind_Inr Let_def split: if_splits)
    from Cons.IH [OF rest Cons.prems(2)] obtain ds idxs where
      c1: "STX_cells cls [state] rest = map Inr ds" and
      c2: "items w' = items w1 @ map (\<lambda>i. Data (be_bytes 2 i)) idxs" and
      c3: "list_all2 (\<lambda>d i. ids' d = Some i) ds idxs" and
      c4: "entries_inv es' ids'" and
      c5: "ids \<subseteq>\<^sub>m ids'" and
      c6: "set es' = set es \<union> set ds"
      by blast
    from c5 Some have here: "ids' d = Some i"
      by (auto simp: map_le_def dom_def)
    from entries_inv_Some [OF Cons.prems(2) Some] have "d \<in> set es"
      by (auto simp: in_set_conv_nth)
    with c6 have C6: "set es' = set es \<union> set (d # ds)"
      by auto
    have C1: "STX_cells cls [state] (c # rest) = map Inr (d # ds)"
      by (simp add: cell c1)
    have C2: "items w' = items w @ map (\<lambda>i. Data (be_bytes 2 i)) (i # idxs)"
      by (simp add: c2 writeUShort_items [OF w1])
    have C3: "list_all2 (\<lambda>d i. ids' d = Some i) (d # ds) (i # idxs)"
      using c3 here by simp
    show ?thesis
      by (rule exI [of _ "d # ds"], rule exI [of _ "i # idxs"])
        (intro conjI C1 C2 C3 c4 c5 C6)
  qed
qed

lemma list_all2_map_le:
  "list_all2 (\<lambda>d i. m d = Some i) ds idxs \<Longrightarrow> m \<subseteq>\<^sub>m m'
     \<Longrightarrow> list_all2 (\<lambda>d i. m' d = Some i) ds idxs"
  by (erule list_all2_mono) (auto simp: map_le_def dom_def)

lemma write_states_dedup:
  assumes "write_states cls states classes (w, es, ids) = Inr (w', es', ids')"
    and "entries_inv es ids"
  shows "\<exists>ds idxs. STX_cells cls states classes = map Inr ds
           \<and> items w' = items w @ map (\<lambda>i. Data (be_bytes 2 i)) idxs
           \<and> list_all2 (\<lambda>d i. ids' d = Some i) ds idxs
           \<and> entries_inv es' ids' \<and> ids \<subseteq>\<^sub>m ids' \<and> set es' = set es \<union> set ds"
  using assms
proof (induction states arbitrary: w es ids)
  case Nil
  then have "w' = w" "es' = es" "ids' = ids" by simp_all
  with Nil.prems(2) show ?case
    by (intro exI [of _ "[]"]) simp
next
  case (Cons state states)
  from Cons.prems(1) obtain w1 es1 ids1 where
    row: "write_state_row cls state classes (w, es, ids) = Inr (w1, es1, ids1)" and
    rest: "write_states cls states classes (w1, es1, ids1) = Inr (w', es', ids')"
    by (auto simp: ebind_Inr)
  from write_state_row_dedup [OF row Cons.prems(2)] obtain ds1 idxs1 where
    r1: "STX_cells cls [state] classes = map Inr ds1" and
    r2: "items w1 = items w @ map (\<lambda>i. Data (be_bytes 2 i)) idxs1" and
    r3: "list_all2 (\<lambda>d i. ids1 d = Some i) ds1 idxs1" and
    r4: "entries_inv es1 ids1" and
    r5: "ids \<subseteq>\<^sub>m ids1" and
    r6: "set es1 = set es \<union> set ds1"
    by blast
  from Cons.IH [OF rest r4] obtain ds idxs where
    c1: "STX_cells cls states classes = map Inr ds" and
    c2: "items w' = items w1 @ map (\<lambda>i. Data (be_bytes 2 i)) idxs" and
    c3: "list_all2 (\<lambda>d i. ids' d = Some i) ds idxs" and
    c4: "entries_inv es' ids'" and
    c5: "ids1 \<subseteq>\<^sub>m ids'" and
    c6: "set es' = set es1 \<union> set ds"
    by blast
  have C1: "STX_cells cls (state # states) classes = map Inr (ds1 @ ds)"
    by (simp add: STX_cells_Cons [of cls state states] r1 c1)
  have C2: "items w' = items w @ map (\<lambda>i. Data (be_bytes 2 i)) (idxs1 @ idxs)"
    by (simp add: c2 r2)
  have C3: "list_all2 (\<lambda>d i. ids' d = Some i) (ds1 @ ds) (idxs1 @ idxs)"
    using list_all2_map_le [OF r3 c5] c3 by (rule list_all2_appendI)
  have C5: "ids \<subseteq>\<^sub>m ids'"
    using r5 c5 by (rule map_le_trans)
  have C6: "set es' = set es \<union> set (ds1 @ ds)"
    using c6 r6 by auto
  show ?case
    by (rule exI [of _ "ds1 @ ds"], rule exI [of _ "idxs1 @ idxs"])
      (intro conjI C1 C2 C3 c4 C5 C6)
qed

lemma writeULong_items:
  "writeULong w v = Inr w' \<Longrightarrow> items w' = items w @ [Data (be_bytes 4 v)]"
  by (auto simp: writeULong_def writeData_def append_item_def dest!: writeUnsigned_Inr)

lemma items_newWriter [simp]: "items newWriter = []"
  by (simp add: newWriter_def)

text \<open>What \<^verbatim>\<open>write\<close> appends to the writer: the header fields, then the four sections.\<close>

lemma STXHeader_write_parts:
  assumes "STXHeader_write cls font allData writer value = Inr writer'"
  shows "\<exists>sw es ids hdr cd pd.
           write_states cls (States value) [0..Max (set (map snd (GlyphClasses value)))]
             (newWriter, [], Map.empty) = Inr (sw, es, ids)
         \<and> items writer' = items writer @ hdr
             @ [Data cd, Data (pad (getAllData sw) 4), Data (pad (concat es) 4), Data pd]
         \<and> length hdr = (if isContextual cls then 5 else 4)"
proof -
  from assms obtain sw es ids cd pd w1 w2 w3 w4 w5 v1 v2 v3 v4 where
    ws: "write_states cls (States value) [0..Max (set (map snd (GlyphClasses value)))]
           (newWriter, [], Map.empty) = Inr (sw, es, ids)" and
    h1: "writeULong writer v1 = Inr w1" and
    h2: "writeULong w1 v2 = Inr w2" and
    h3: "writeULong w2 v3 = Inr w3" and
    h4: "writeULong w3 v4 = Inr w4" and
    h5: "(if isContextual cls
          then writeULong w4 (v4 + int (length (pad (concat es) 4)))
          else Inr w4) = Inr w5" and
    w': "writer' = writeData (writeData (writeData (writeData w5 cd)
           (pad (getAllData sw) 4)) (pad (concat es) 4)) pd"
    unfolding STXHeader_write_def Let_def
    by (auto simp: ebind_Inr split: if_splits)
  have i4: "items w4 = items writer @ [Data (be_bytes 4 v1), Data (be_bytes 4 v2),
      Data (be_bytes 4 v3), Data (be_bytes 4 v4)]"
    by (simp add: writeULong_items [OF h1] writeULong_items [OF h2]
        writeULong_items [OF h3] writeULong_items [OF h4])
  have "\<exists>hdr. items w5 = items writer @ hdr \<and> length hdr = (if isContextual cls then 5 else 4)"
  proof (cases "isContextual cls")
    case True
    with h5 have "items w5 = items w4 @ [Data (be_bytes 4 (v4 + int (length (pad (concat es) 4))))]"
      by (simp add: writeULong_items)
    with True show ?thesis
      by (simp add: i4)
  next
    case False
    with h5 have "w5 = w4" by simp
    with False show ?thesis
      by (simp add: i4)
  qed
  then obtain hdr where hdr: "items w5 = items writer @ hdr"
    and len: "length hdr = (if isContextual cls then 5 else 4)"
    by blast
  have "items writer' = items writer @ hdr
      @ [Data cd, Data (pad (getAllData sw) 4), Data (pad (concat es) 4), Data pd]"
    by (simp add: w' hdr)
  with ws len show ?thesis
    by blast
qed

lemma getAllData_indices:
  "items sw = map (\<lambda>i. Data (be_bytes 2 i)) idxs
     \<Longrightarrow> getAllData sw = concat (map (be_bytes 2) idxs)"
  by (simp add: getAllData_def comp_def)

text \<open>
  Claim C2. When \<^verbatim>\<open>STXHeader.write\<close> returns, the cells of the table, state after state
  and class after class, have compiled to byte strings \<open>ds\<close>; the state array holds one
  16-bit index per cell, \<open>idxs\<close>, and the entry table the concatenation of \<open>entries\<close>.
  The index of every cell is the position in \<open>entries\<close> of the bytes of the cell. Two
  cells have the same index exactly when their bytes are equal. No byte string is twice
  in \<open>entries\<close>, \<open>entries\<close> holds the byte strings of the cells and no other, and so has
  as many records as there are distinct byte strings among the cells.
\<close>

theorem STXHeader_write_dedup:
  assumes "STXHeader_write cls font allData writer value = Inr writer'"
  shows "\<exists>ds idxs entries hdr classData perGlyphData.
           STX_cells cls (States value) [0..Max (set (map snd (GlyphClasses value)))]
             = map Inr ds
         \<and> items writer' = items writer @ hdr
             @ [Data classData, Data (pad (concat (map (be_bytes 2) idxs)) 4),
                Data (pad (concat entries) 4), Data perGlyphData]
         \<and> length hdr = (if isContextual cls then 5 else 4)
         \<and> list_all2 (\<lambda>d i. 0 \<le> i \<and> nat i < length entries \<and> entries ! nat i = d) ds idxs
         \<and> (\<forall>j < length ds. \<forall>k < length ds. (idxs ! j = idxs ! k) = (ds ! j = ds ! k))
         \<and> distinct entries \<and> set entries = set ds \<and> length entries = card (set ds)"
proof -
  from STXHeader_write_parts [OF assms] obtain sw es ids hdr cd pd where
    ws: "write_states cls (States value) [0..Max (set (map snd (GlyphClasses value)))]
           (newWriter, [], Map.empty) = Inr (sw, es, ids)" and
    its: "items writer' = items writer @ hdr
             @ [Data cd, Data (pad (getAllData sw) 4), Data (pad (concat es) 4), Data pd]" and
    len: "length hdr = (if isContextual cls then 5 else 4)"
    by blast
  from write_states_dedup [OF ws entries_inv_empty] obtain ds idxs where
    c1: "STX_cells cls (States value) [0..Max (set (map snd (GlyphClasses value)))]
           = map Inr ds" and
    c2: "items sw = map (\<lambda>i. Data (be_bytes 2 i)) idxs" and
    c3: "list_all2 (\<lambda>d i. ids d = Some i) ds idxs" and
    c4: "entries_inv es ids" and
    c6: "set es = set ds"
    by auto
  have dist: "distinct es"
    using c4 by (simp add: entries_inv_def)
  have C2: "items writer' = items writer @ hdr
             @ [Data cd, Data (pad (concat (map (be_bytes 2) idxs)) 4),
                Data (pad (concat es) 4), Data pd]"
    by (simp add: its getAllData_indices [OF c2])
  have C4: "list_all2 (\<lambda>d i. 0 \<le> i \<and> nat i < length es \<and> es ! nat i = d) ds idxs"
    using c3 by (rule list_all2_mono) (rule entries_inv_Some [OF c4])
  have C5: "\<forall>j < length ds. \<forall>k < length ds. (idxs ! j = idxs ! k) = (ds ! j = ds ! k)"
  proof (intro allI impI)
    fix j k
    assume j: "j < length ds" and k: "k < length ds"
    from C4 j have pj: "0 \<le> idxs ! j" "nat (idxs ! j) < length es" "es ! nat (idxs ! j) = ds ! j"
      by (simp_all add: list_all2_conv_all_nth)
    from C4 k have pk: "0 \<le> idxs ! k" "nat (idxs ! k) < length es" "es ! nat (idxs ! k) = ds ! k"
      by (simp_all add: list_all2_conv_all_nth)
    show "(idxs ! j = idxs ! k) = (ds ! j = ds ! k)"
    proof
      assume "idxs ! j = idxs ! k"
      with pj(3) pk(3) show "ds ! j = ds ! k" by simp
    next
      assume "ds ! j = ds ! k"
      with pj(3) pk(3) have "es ! nat (idxs ! j) = es ! nat (idxs ! k)" by simp
      with dist pj(2) pk(2) have "nat (idxs ! j) = nat (idxs ! k)"
        by (simp add: nth_eq_iff_index_eq)
      with pj(1) pk(1) show "idxs ! j = idxs ! k" by simp
    qed
  qed
  have C8: "length es = card (set ds)"
    using distinct_card [OF dist] c6 by simp
  show ?thesis
    by (rule exI [of _ ds], rule exI [of _ idxs], rule exI [of _ es], rule exI [of _ hdr],
        rule exI [of _ cd], rule exI [of _ pd])
      (intro conjI c1 C2 len C4 C5 dist c6 C8)
qed

theorem STXHeader_write_dedup_witness:
  "STXHeader_write
      \<lparr>isContextual = False, class_staticSize = 4, action_staticSize = (\<lambda>t. 4),
       compileAction = (\<lambda>t. case t of AATAction x \<Rightarrow> Inr (be_bytes 4 x)
                               | ContextualMorphAction m c x \<Rightarrow> Inl AttributeError),
       decompileAction = (\<lambda>r. ebind (readULong r) (\<lambda>(x, r). Inr (AATAction x)))\<rparr>
      \<lparr>getGlyphID = (\<lambda>g. g), getGlyphName = (\<lambda>i. i), numGlyphs = 2, lazy = False\<rparr>
      getAllData newWriter
      \<lparr>GlyphClassCount = 2, GlyphClasses = [(0 :: int, 0), (1, 1)],
       States = [[(0, AATAction (7 :: int)), (1, AATAction 9)],
                 [(0, AATAction 9), (1, AATAction 7)]],
       PerGlyphLookups = []\<rparr>
     = Inr (set_items
         [Data [0, 0, 0, 2], Data [0, 0, 0, 16], Data [0, 0, 0, 24], Data [0, 0, 0, 32],
          Data [0, 0, 0, 0, 0, 1, 0, 0], Data [0, 0, 0, 1, 0, 1, 0, 0],
          Data [0, 0, 0, 7, 0, 0, 0, 9], Data []] newWriter)
   \<and> (\<exists>idxs entries hdr classData perGlyphData.
         [Data [0, 0, 0, 2], Data [0, 0, 0, 16], Data [0, 0, 0, 24], Data [0, 0, 0, 32],
          Data [0, 0, 0, 0, 0, 1, 0, 0], Data [0, 0, 0, 1, 0, 1, 0, 0],
          Data [0, 0, 0, 7, 0, 0, 0, 9], Data []]
           = hdr @ [Data classData, Data (pad (concat (map (be_bytes 2) idxs)) 4),
                    Data (pad (concat entries) 4), Data perGlyphData]
       \<and> length hdr = 4
       \<and> list_all2 (\<lambda>d i. 0 \<le> i \<and> nat i < length entries \<and> entries ! nat i = d)
           [[0, 0, 0, 7], [0, 0, 0, 9], [0, 0, 0, 9], [0, 0, 0, 7]] idxs
       \<and> distinct entries \<and> length entries = 2)"
proof -
  define C :: "int actionClass" where
    "C = \<lparr>isContextual = False, class_staticSize = 4, action_staticSize = (\<lambda>t. 4),
       compileAction = (\<lambda>t. case t of AATAction x \<Rightarrow> Inr (be_bytes 4 x)
                               | ContextualMorphAction m c x \<Rightarrow> Inl AttributeError),
       decompileAction = (\<lambda>r. ebind (readULong r) (\<lambda>(x, r). Inr (AATAction x)))\<rparr>"
  define F :: "int font" where
    "F = \<lparr>getGlyphID = (\<lambda>g. g), getGlyphName = (\<lambda>i. i), numGlyphs = 2, lazy = False\<rparr>"
  define T :: "(int, int) AATStateTable" where
    "T = \<lparr>GlyphClassCount = 2, GlyphClasses = [(0 :: int, 0), (1, 1)],
       States = [[(0, AATAction (7 :: int)), (1, AATAction 9)],
                 [(0, AATAction 9), (1, AATAction 7)]],
       PerGlyphLookups = []\<rparr>"
  define its :: "item list" where
    "its = [Data [0, 0, 0, 2], Data [0, 0, 0, 16], Data [0, 0, 0, 24], Data [0, 0, 0, 32],
          Data [0, 0, 0, 0, 0, 1, 0, 0], Data [0, 0, 0, 1, 0, 1, 0, 0],
          Data [0, 0, 0, 7, 0, 0, 0, 9], Data []]"
  define D :: "byte list list" where
    "D = [[0, 0, 0, 7], [0, 0, 0, 9], [0, 0, 0, 9], [0, 0, 0, 7]]"
  have h: "STXHeader_write C F getAllData newWriter T = Inr (set_items its newWriter)"
    unfolding C_def F_def T_def its_def by code_simp
  have cells: "STX_cells C (States T) [0..Max (set (map snd (GlyphClasses T)))] = map Inr D"
    unfolding C_def T_def D_def by code_simp
  have card: "card (set D) = 2"
    unfolding D_def by code_simp
  have nctx: "\<not> isContextual C"
    by (simp add: C_def)
  from STXHeader_write_dedup [OF h] obtain ds idxs entries hdr cd pd where
    c1: "STX_cells C (States T) [0..Max (set (map snd (GlyphClasses T)))] = map Inr ds" and
    c2: "items (set_items its newWriter) = items newWriter @ hdr
             @ [Data cd, Data (pad (concat (map (be_bytes 2) idxs)) 4),
                Data (pad (concat entries) 4), Data pd]" and
    c3: "length hdr = (if isContextual C then 5 else 4)" and
    c4: "list_all2 (\<lambda>d i. 0 \<le> i \<and> nat i < length entries \<and> entries ! nat i = d) ds idxs" and
    c6: "distinct entries" and
    c8: "length entries = card (set ds)"
    by blast
  from c1 cells have "map Inr ds = (map Inr D :: (error + byte list) list)"
    by simp
  then have ds: "ds = D"
    by (simp add: inj_map_eq_map)
  have E2: "its = hdr @ [Data cd, Data (pad (concat (map (be_bytes 2) idxs)) 4),
                Data (pad (concat entries) 4), Data pd]"
    using c2 by simp
  have E3: "length hdr = 4"
    using c3 nctx by simp
  have E4: "list_all2 (\<lambda>d i. 0 \<le> i \<and> nat i < length entries \<and> entries ! nat i = d) D idxs"
    using c4 ds by simp
  have E8: "length entries = 2"
    using c8 ds card by simp
  have "\<exists>idxs entries hdr classData perGlyphData.
         its = hdr @ [Data classData, Data (pad (concat (map (be_bytes 2) idxs)) 4),
                    Data (pad (concat entries) 4), Data perGlyphData]
       \<and> length hdr = 4
       \<and> list_all2 (\<lambda>d i. 0 \<le> i \<and> nat i < length entries \<and> entries ! nat i = d) D idxs
       \<and> distinct entries \<and> length entries = 2"
    by (rule exI [of _ idxs], rule exI [of _ entries], rule exI [of _ hdr],
        rule exI [of _ cd], rule exI [of _ pd]) (intro conjI E2 E3 E4 c6 E8)
  with h show ?thesis
    unfolding C_def F_def T_def its_def D_def by (rule conjI)
qed

end
